theory Spec2Isabelle
  imports Main "HOL-Library.Sublist"
begin

section \<open>Strings and numbers of the client code\<close>

text \<open>
  The sources are TypeScript. A JavaScript string is modelled by the bytes of its UTF-8
  encoding, a \<open>string\<close>: an ASCII character is one \<open>char\<close>, any other code point is
  the two to four bytes that encode it. Concatenation, \<open>split\<close> at an ASCII separator
  and the search for a substring act on the encoding as they do on the string.
  \<open>startsWith\<close> is \<open>prefix\<close>, \<open>endsWith\<close> is \<open>prefix\<close> on the reversed strings
  (which is \<open>suffix\<close>), \<open>includes\<close> looks for the pattern at every position.
  The strings the code meets are well formed (keys and names of objects, decoded text),
  so each has an encoding; the properties below hold for every list of bytes.
\<close>

definition endsWith :: "string \<Rightarrow> string \<Rightarrow> bool" where
  "endsWith s suf = prefix (rev suf) (rev s)"

fun includes_str :: "string \<Rightarrow> string \<Rightarrow> bool" where
  "includes_str [] pat = (pat = [])"
| "includes_str (c # cs) pat = (prefix pat (c # cs) \<or> includes_str cs pat)"

text \<open>
  A JavaScript number is an IEEE double. The numbers of the modelled code are integers
  (counts, times in milliseconds, their sums and differences), so a number is \<open>NaN\<close>,
  an infinity, or an integer that a double holds. \<open>to_number\<close> is the double nearest to
  an integer: exact below \<open>2^53\<close>, above it rounded to 53 significant bits, a tie going
  to the even significand, and infinite from \<open>2^1024\<close> on. Sums and differences are
  the exact result rounded.
\<close>

datatype number = NaN | Num int | PosInfinity | NegInfinity

fun bit_length :: "nat \<Rightarrow> nat" where
  "bit_length n = (if n = 0 then 0 else Suc (bit_length (n div 2)))"

declare bit_length.simps [simp del]

definition round_nat :: "nat \<Rightarrow> nat" where
  "round_nat n =
     (if n < 2 ^ 53 then n
      else
        let ulp = 2 ^ (bit_length n - 53); q = n div ulp; r = n mod ulp
        in if 2 * r < ulp \<or> (2 * r = ulp \<and> even q) then q * ulp else (q + 1) * ulp)"

definition to_number :: "int \<Rightarrow> number" where
  "to_number x =
     (let m = round_nat (nat \<bar>x\<bar>)
      in if 2 ^ 1024 \<le> m then (if x < 0 then NegInfinity else PosInfinity)
         else Num (if x < 0 then - int m else int m))"

fun plus_number :: "number \<Rightarrow> number \<Rightarrow> number" where
  "plus_number (Num a) (Num b) = to_number (a + b)"
| "plus_number NaN _ = NaN"
| "plus_number _ NaN = NaN"
| "plus_number PosInfinity NegInfinity = NaN"
| "plus_number NegInfinity PosInfinity = NaN"
| "plus_number PosInfinity _ = PosInfinity"
| "plus_number _ PosInfinity = PosInfinity"
| "plus_number NegInfinity _ = NegInfinity"
| "plus_number _ NegInfinity = NegInfinity"

fun minus_number :: "number \<Rightarrow> number \<Rightarrow> number" where
  "minus_number (Num a) (Num b) = to_number (a - b)"
| "minus_number NaN _ = NaN"
| "minus_number _ NaN = NaN"
| "minus_number PosInfinity PosInfinity = NaN"
| "minus_number NegInfinity NegInfinity = NaN"
| "minus_number PosInfinity _ = PosInfinity"
| "minus_number _ NegInfinity = PosInfinity"
| "minus_number NegInfinity _ = NegInfinity"
| "minus_number _ PosInfinity = NegInfinity"

fun positive :: "number \<Rightarrow> bool" where
  "positive (Num v) = (0 < v)"
| "positive PosInfinity = True"
| "positive _ = False"

fun negative :: "number \<Rightarrow> bool" where
  "negative (Num v) = (v < 0)"
| "negative NegInfinity = True"
| "negative _ = False"

text \<open>
  Line feed and carriage return, the line and paragraph separators U+2028 and U+2029,
  and the white space that \<open>trim\<close> and \<open>parseInt\<close> strip: ECMAScript's WhiteSpace and
  LineTerminator, each code point by its encoding. These are U+0009 to U+000D, U+0020,
  U+00A0, U+1680, U+2000 to U+200A, U+2028, U+2029, U+202F, U+205F, U+3000 and U+FEFF.
\<close>

definition LF :: char where
  "LF = CHR 0x0A"

definition CR :: char where
  "CR = CHR 0x0D"

definition LS :: string where
  "LS = [CHR 0xE2, CHR 0x80, CHR 0xA8]"

definition PS :: string where
  "PS = [CHR 0xE2, CHR 0x80, CHR 0xA9]"

definition whiteSpace :: "string list" where
  "whiteSpace =
     [[CHR 0x09], [CHR 0x0A], [CHR 0x0B], [CHR 0x0C], [CHR 0x0D], [CHR 0x20],
      [CHR 0xC2, CHR 0xA0],
      [CHR 0xE1, CHR 0x9A, CHR 0x80],
      [CHR 0xE2, CHR 0x80, CHR 0x80], [CHR 0xE2, CHR 0x80, CHR 0x81],
      [CHR 0xE2, CHR 0x80, CHR 0x82], [CHR 0xE2, CHR 0x80, CHR 0x83],
      [CHR 0xE2, CHR 0x80, CHR 0x84], [CHR 0xE2, CHR 0x80, CHR 0x85],
      [CHR 0xE2, CHR 0x80, CHR 0x86], [CHR 0xE2, CHR 0x80, CHR 0x87],
      [CHR 0xE2, CHR 0x80, CHR 0x88], [CHR 0xE2, CHR 0x80, CHR 0x89],
      [CHR 0xE2, CHR 0x80, CHR 0x8A],
      [CHR 0xE2, CHR 0x80, CHR 0xA8], [CHR 0xE2, CHR 0x80, CHR 0xA9],
      [CHR 0xE2, CHR 0x80, CHR 0xAF],
      [CHR 0xE2, CHR 0x81, CHR 0x9F],
      [CHR 0xE3, CHR 0x80, CHR 0x80],
      [CHR 0xEF, CHR 0xBB, CHR 0xBF]]"

text \<open>
  \<open>strip ws s\<close> removes from the front of \<open>s\<close> every leading occurrence of one of the
  sequences \<open>ws\<close>. \<open>trimStart\<close> strips the white space from the front, \<open>trimEnd\<close>
  from the back, \<open>trim\<close> from both.
\<close>

function strip :: "string list \<Rightarrow> string \<Rightarrow> string" where
  "strip ws s =
     (case find (\<lambda>w. w \<noteq> [] \<and> prefix w s) ws of
        None \<Rightarrow> s
      | Some w \<Rightarrow> strip ws (drop (length w) s))"
  by pat_completeness auto
termination
proof (relation "measure (\<lambda>(ws, s). length s)")
  show "wf (measure (\<lambda>(ws, s). length s))" by simp
next
  fix ws :: "string list" and s w :: string
  assume "find (\<lambda>w. w \<noteq> [] \<and> prefix w s) ws = Some w"
  then have "w \<noteq> []" "prefix w s"
    by (auto simp: find_Some_iff)
  then have "0 < length w" "length w \<le> length s"
    by (auto simp: prefix_def)
  then have "length s - length w < length s"
    by arith
  then show "((ws, drop (length w) s), (ws, s)) \<in> measure (\<lambda>(ws, s). length s)"
    by simp
qed

declare strip.simps [simp del]

definition trimStart :: "string \<Rightarrow> string" where
  "trimStart s = strip whiteSpace s"

definition trimEnd :: "string \<Rightarrow> string" where
  "trimEnd s = rev (strip (map rev whiteSpace) (rev s))"

definition trim :: "string \<Rightarrow> string" where
  "trim s = trimEnd (trimStart s)"

text \<open>
  \<open>s.split(sep)\<close> for a one-character separator: the fields between the separators,
  one more than there are separators, so never the empty list.
\<close>

fun split_on :: "char \<Rightarrow> string \<Rightarrow> string list" where
  "split_on sep [] = [[]]"
| "split_on sep (c # cs) =
     (if c = sep then [] # split_on sep cs
      else (case split_on sep cs of [] \<Rightarrow> [[c]] | x # xs \<Rightarrow> (c # x) # xs))"

text \<open>
  \<open>parseInt(input)\<close> with no radix: leading white space is skipped, a sign is read,
  \<open>0x\<close> or \<open>0X\<close> selects radix 16, and the longest run of digits of the radix is
  read; no digit at all gives \<open>NaN\<close>, otherwise the result is the number nearest to
  the signed value of the digits. (Past the twentieth significant digit ECMAScript lets
  an implementation read a decimal digit as 0; the model reads every digit.)
\<close>

definition digits :: "char list" where
  "digits = ''0123456789''"

definition digit_values :: "(char \<times> nat) list" where
  "digit_values = zip ''0123456789abcdef'' [0..<16] @ zip ''ABCDEF'' [10..<16]"

definition digit_in :: "nat \<Rightarrow> char \<Rightarrow> nat option" where
  "digit_in radix c =
     (case map_of digit_values c of
        Some v \<Rightarrow> if v < radix then Some v else None
      | None \<Rightarrow> None)"

fun leading_digits :: "nat \<Rightarrow> string \<Rightarrow> nat list" where
  "leading_digits radix [] = []"
| "leading_digits radix (c # cs) =
     (case digit_in radix c of Some v \<Rightarrow> v # leading_digits radix cs | None \<Rightarrow> [])"

definition digits_value :: "nat \<Rightarrow> nat list \<Rightarrow> nat" where
  "digits_value radix ds = foldl (\<lambda>acc d. acc * radix + d) 0 ds"

definition parseInt :: "string \<Rightarrow> number" where
  "parseInt input =
     (let s = trimStart input;
          minus = (s \<noteq> [] \<and> hd s = CHR ''-'');
          s1 = (if s \<noteq> [] \<and> (hd s = CHR ''+'' \<or> hd s = CHR ''-'') then tl s else s);
          hex = (prefix ''0x'' s1 \<or> prefix ''0X'' s1);
          radix = (if hex then 16 else 10);
          s2 = (if hex then drop 2 s1 else s1);
          ds = leading_digits radix s2
      in if ds = [] then NaN
         else to_number (if minus then - int (digits_value radix ds)
                         else int (digits_value radix ds)))"

text \<open>\<open>v || 0\<close> for a number: \<open>NaN\<close> and \<open>0\<close> are falsy, every other number is kept.\<close>

definition or_zero :: "number \<Rightarrow> number" where
  "or_zero v = (case v of NaN \<Rightarrow> Num 0 | _ \<Rightarrow> v)"

text \<open>A non-negative integer in a template string: its decimal digits.\<close>

fun show_nat :: "nat \<Rightarrow> string" where
  "show_nat n = (if n < 10 then [digits ! n] else show_nat (n div 10) @ [digits ! (n mod 10)])"

declare show_nat.simps [simp del]

text \<open>
  \<open>Date.prototype.getTime\<close>: the time in milliseconds, \<open>NaN\<close> for the invalid date
  that \<open>new Date(undefined)\<close> is. A date is modelled by its time; an absent date is
  \<open>None\<close>.
\<close>

definition getTime :: "int option \<Rightarrow> number" where
  "getTime d = (case d of None \<Rightarrow> NaN | Some t \<Rightarrow> Num t)"

text \<open>
  \<open>Array.prototype.sort(comparefn)\<close>. ECMAScript fixes the result for a comparator
  that is a consistent comparison function for the elements: it never returns
  \<open>NaN\<close>, compares every element equal to itself, and its \<open>= 0\<close>, \<open>< 0\<close> and
  \<open>> 0\<close> are symmetric and transitive as listed in the standard. The result is then the
  stable sort: \<open>x\<close> is placed before the first element it does not compare greater
  than (\<open>insertion_sort\<close>). For any other comparator the standard leaves the order to
  the implementation: the model takes it from \<open>engine\<close>, a parameter about which
  nothing is assumed. \<open>sortCompare\<close> reads a comparator's \<open>NaN\<close> as 0, as the
  standard's SortCompare does.
\<close>

definition sortCompare :: "('a \<Rightarrow> 'a \<Rightarrow> number) \<Rightarrow> 'a \<Rightarrow> 'a \<Rightarrow> number" where
  "sortCompare comparefn x y = (case comparefn x y of NaN \<Rightarrow> Num 0 | v \<Rightarrow> v)"

fun insert_sorted :: "('a \<Rightarrow> 'a \<Rightarrow> number) \<Rightarrow> 'a \<Rightarrow> 'a list \<Rightarrow> 'a list" where
  "insert_sorted comparefn x [] = [x]"
| "insert_sorted comparefn x (y # ys) =
     (if positive (sortCompare comparefn x y) then y # insert_sorted comparefn x ys
      else x # y # ys)"

definition insertion_sort :: "('a \<Rightarrow> 'a \<Rightarrow> number) \<Rightarrow> 'a list \<Rightarrow> 'a list" where
  "insertion_sort comparefn xs = foldr (insert_sorted comparefn) xs []"

definition consistent :: "('a \<Rightarrow> 'a \<Rightarrow> number) \<Rightarrow> 'a list \<Rightarrow> bool" where
  "consistent comparefn xs =
     (\<forall>a \<in> set xs. \<forall>b \<in> set xs.
        comparefn a b \<noteq> NaN
        \<and> comparefn a a = Num 0
        \<and> (comparefn a b = Num 0 \<longrightarrow> comparefn b a = Num 0)
        \<and> (\<forall>c \<in> set xs.
              (comparefn a b = Num 0 \<and> comparefn b c = Num 0 \<longrightarrow> comparefn a c = Num 0)
              \<and> (negative (comparefn a b) \<and> negative (comparefn b c)
                    \<longrightarrow> negative (comparefn a c))
              \<and> (positive (comparefn a b) \<and> positive (comparefn b c)
                    \<longrightarrow> positive (comparefn a c))))"

definition js_sort ::
    "(('a \<Rightarrow> 'a \<Rightarrow> number) \<Rightarrow> 'a list \<Rightarrow> 'a list)
      \<Rightarrow> ('a \<Rightarrow> 'a \<Rightarrow> number) \<Rightarrow> 'a list \<Rightarrow> 'a list" where
  "js_sort engine comparefn xs =
     (if consistent comparefn xs then insertion_sort comparefn xs else engine comparefn xs)"

text \<open>An awaited promise either rejects (the \<open>await\<close> throws) or fulfils with a value.\<close>

datatype 'a outcome = Rejected | Fulfilled 'a

section \<open>Storage access policy (amplify/storage/resource.ts)\<close>

text \<open>
  \<open>defineStorage\<close> takes one access rule per path; every rule of the file is
  \<open>allow.guest.to([...])\<close>, so the table below is the whole client-facing policy.
  A path \<open>p/*\<close> covers the objects whose key starts with \<open>p/\<close>.
\<close>

datatype action = Read | Write | Delete

definition storage_access :: "(string \<times> action list) list" where
  "storage_access =
     [(''public/uploads/*'', [Read, Write, Delete]),
      (''public/results/*'', [Read]),
      (''public/processed/*'', [Read]),
      (''uploads/*'', [Read, Write, Delete]),
      (''results/*'', [Read]),
      (''processed/*'', [Read])]"

definition path_covers :: "string \<Rightarrow> string \<Rightarrow> bool" where
  "path_covers pat k =
     (if pat \<noteq> [] \<and> last pat = CHR ''*'' then prefix (butlast pat) k else k = pat)"

definition guest_can :: "action \<Rightarrow> string \<Rightarrow> bool" where
  "guest_can a k = list_ex (\<lambda>(pat, acts). path_covers pat k \<and> a \<in> set acts) storage_access"

definition read_only_prefixes :: "string list" where
  "read_only_prefixes = [''public/results/'', ''public/processed/'', ''results/'', ''processed/'']"

section \<open>Upload keys (src/components/S3FileUploader.tsx)\<close>

text \<open>
  \<open>handleFiles\<close> keeps the selected files whose MIME type is a zip type or starts
  with \<open>image/\<close>; it does not look at the file name.
\<close>

record upload_file =
  file_name :: string
  file_type :: string

definition valid_type :: "string \<Rightarrow> bool" where
  "valid_type t =
     (t = ''application/zip'' \<or> t = ''application/x-zip-compressed'' \<or> prefix ''image/'' t)"

definition handleFiles :: "upload_file list \<Rightarrow> upload_file list" where
  "handleFiles files = filter (\<lambda>f. valid_type (file_type f)) files"

text \<open>
  \<open>uploadToS3\<close> derives the key from \<open>new Date().toISOString()\<close> and the file's
  name. \<open>.replace(/[:.]/g, '-')\<close> rewrites every colon and every dot of the
  time stamp. The time stamp is the string \<open>toISOString\<close> returns, \<open>ts\<close> below.
\<close>

definition replace_char :: "char \<Rightarrow> char" where
  "replace_char c = (if c = CHR '':'' \<or> c = CHR ''.'' then CHR ''-'' else c)"

definition replace_colon_dot :: "string \<Rightarrow> string" where
  "replace_colon_dot s = map replace_char s"

definition uploadKey :: "string \<Rightarrow> string \<Rightarrow> string" where
  "uploadKey ts name = ''uploads/'' @ (replace_colon_dot ts @ ''-'' @ name)"

text \<open>
  The strings \<open>toISOString\<close> can return (ECMAScript, Date Time String Format):
  \<open>YYYY-MM-DDTHH:mm:ss.sssZ\<close>, or \<open>\<plusminus>YYYYYY-MM-DDTHH:mm:ss.sssZ\<close> for a year
  outside 0 to 9999. A pattern gives, position by position, the characters allowed there.
\<close>

definition iso_pattern :: "char list list" where
  "iso_pattern =
     [digits, digits, digits, digits, ''-'', digits, digits, ''-'', digits, digits, ''T'',
      digits, digits, '':'', digits, digits, '':'', digits, digits, ''.'',
      digits, digits, digits, ''Z'']"

definition iso_pattern_expanded :: "char list list" where
  "iso_pattern_expanded = [''+-'', digits, digits] @ iso_pattern"

definition fits :: "char list list \<Rightarrow> string \<Rightarrow> bool" where
  "fits p s = list_all2 (\<lambda>cl c. c \<in> set cl) p s"

definition isISOString :: "string \<Rightarrow> bool" where
  "isISOString s = (fits iso_pattern s \<or> fits iso_pattern_expanded s)"

text \<open>
  A class of characters is separable when the replacement maps no two of its members to
  the same character.
\<close>

definition separable :: "char list \<Rightarrow> bool" where
  "separable cl = (\<forall>x \<in> set cl. \<forall>y \<in> set cl. replace_char x = replace_char y \<longrightarrow> x = y)"

section \<open>Storage notifications (amplify/backend.ts)\<close>

text \<open>
  The bucket invokes the processing function on \<open>OBJECT_CREATED\<close> under twelve
  filters: suffix \<open>.zip\<close> and each of \<open>imageExtensions\<close>, each under the prefixes
  \<open>uploads/\<close> and \<open>public/uploads/\<close>. A filter compares the characters of the
  key with its prefix and suffix as they are.
\<close>

definition imageExtensions :: "string list" where
  "imageExtensions = [''.jpg'', ''.jpeg'', ''.png'', ''.gif'', ''.bmp'']"

definition notification_filters :: "(string \<times> string) list" where
  "notification_filters =
     [(''uploads/'', ''.zip''), (''public/uploads/'', ''.zip'')]
     @ concat (map (\<lambda>ext. [(''uploads/'', ext), (''public/uploads/'', ext)]) imageExtensions)"

definition triggers_processor :: "string \<Rightarrow> bool" where
  "triggers_processor k =
     list_ex (\<lambda>(pre, suf). prefix pre k \<and> endsWith k suf) notification_filters"

definition accepted_suffixes :: "string list" where
  "accepted_suffixes = ''.zip'' # imageExtensions"

text \<open>
  The specification's reading of the accepted set: the suffixes compared after lowering
  the case of the name. The suffixes are ASCII, so only the case of the ASCII letters
  matters, and only those are lowered here.
\<close>

definition toLowerCase :: "string \<Rightarrow> string" where
  "toLowerCase s =
     map (\<lambda>c. case map_of (zip ''ABCDEFGHIJKLMNOPQRSTUVWXYZ'' ''abcdefghijklmnopqrstuvwxyz'') c of
                 Some l \<Rightarrow> l | None \<Rightarrow> c) s"

definition accepted_ignoring_case :: "string \<Rightarrow> bool" where
  "accepted_ignoring_case name = list_ex (endsWith (toLowerCase name)) accepted_suffixes"

section \<open>Storage as the client sees it\<close>

text \<open>
  The client reads storage through three calls of the Amplify library: \<open>list\<close>,
  \<open>downloadData\<close> and \<open>getUrl\<close>. An item of a listing carries an optional
  \<open>key\<close> (listings by prefix), an optional \<open>path\<close> (listings by path) and an
  optional \<open>lastModified\<close>. A state of storage is modelled by what it answers:
  the listing by prefix (\<open>ResultsChecker\<close>), the listing by path
  (\<open>EnhancedCSVViewer\<close>), the decoded text of an object, and the URL handed out for a
  key. A listing answers with an item list, or without one (\<open>items\<close> undefined).
  \<open>getUrl\<close> is called with \<open>expiresIn: 3600\<close>: the URL it hands out is signed at
  the time of the call and expires, so it depends on that time as well as on the key.
  No modelled function calls anything that writes to storage.
\<close>

record ListOutputItem =
  key :: "string option"
  path :: "string option"
  lastModified :: "int option"

record storage =
  list_prefix :: "ListOutputItem list option outcome"
  list_path :: "ListOutputItem list option outcome"
  downloadData :: "string \<Rightarrow> string outcome"
  getUrl :: "int \<Rightarrow> string \<Rightarrow> string outcome"

section \<open>Primary results (src/components/ResultsChecker.tsx)\<close>

text \<open>
  The comparator of \<open>checkForResults\<close>:
  \<open>dateA = a.lastModified || new Date(0)\<close>, likewise \<open>dateB\<close>, and the result
  \<open>dateB.getTime() - dateA.getTime()\<close>.
\<close>

definition date_or_epoch :: "int option \<Rightarrow> int option" where
  "date_or_epoch d = (case d of None \<Rightarrow> Some 0 | Some t \<Rightarrow> Some t)"

definition newestFirst ::
    "'a ListOutputItem_scheme \<Rightarrow> 'a ListOutputItem_scheme \<Rightarrow> number" where
  "newestFirst a b =
     (let dateA = date_or_epoch (lastModified a); dateB = date_or_epoch (lastModified b)
      in minus_number (getTime dateB) (getTime dateA))"

text \<open>\<open>item.key?.endsWith('.csv')\<close>: an item without a key is filtered out.\<close>

definition isCsvKey :: "ListOutputItem \<Rightarrow> bool" where
  "isCsvKey item = (case key item of None \<Rightarrow> False | Some k \<Rightarrow> endsWith k ''.csv'')"

definition csvFiles ::
    "((ListOutputItem \<Rightarrow> ListOutputItem \<Rightarrow> number) \<Rightarrow> ListOutputItem list \<Rightarrow> ListOutputItem list)
      \<Rightarrow> ListOutputItem list \<Rightarrow> ListOutputItem list" where
  "csvFiles engine items = js_sort engine newestFirst (filter isCsvKey items)"

text \<open>
  Reading one table: \<open>csvText.split('\n').filter(line => line.trim())\<close>, then for
  each line after the first \<open>const [filename, birdCount] = line.split(',')\<close>; a line
  counts when both are non-empty strings, and adds \<open>parseInt(birdCount) || 0\<close>
  to \<open>totalBirds\<close>, a sum of numbers. \<open>fileCount\<close> counts lines of one
  text, whose length keeps it far below \<open>2^53\<close>: it is a natural number here.
\<close>

definition nonblank_lines :: "string \<Rightarrow> string list" where
  "nonblank_lines csvText = filter (\<lambda>line. trim line \<noteq> []) (split_on LF csvText)"

definition parseLine :: "string \<Rightarrow> (string \<times> number) option" where
  "parseLine line =
     (case split_on (CHR '','') line of
        filename # birdCount # _ \<Rightarrow>
          if filename \<noteq> [] \<and> birdCount \<noteq> [] then Some (filename, or_zero (parseInt birdCount))
          else None
      | _ \<Rightarrow> None)"

fun count_rows :: "string list \<Rightarrow> number \<times> nat \<Rightarrow> number \<times> nat" where
  "count_rows [] (totalBirds, fileCount) = (totalBirds, fileCount)"
| "count_rows (line # dataLines) (totalBirds, fileCount) =
     (case parseLine line of
        Some (filename, birdCount) \<Rightarrow>
          count_rows dataLines (plus_number totalBirds birdCount, fileCount + 1)
      | None \<Rightarrow> count_rows dataLines (totalBirds, fileCount))"

text \<open>
  The rows the loop counts, in order, with the two values its body reads from each
  (\<open>filename\<close> and \<open>parseInt(birdCount) || 0\<close>): the loop itself keeps only their
  number and the sum of the counts (\<open>count_rows_parsed\<close> below).
\<close>

definition parsed_rows :: "string \<Rightarrow> (string \<times> number) list" where
  "parsed_rows csvText = List.map_filter parseLine (drop 1 (nonblank_lines csvText))"

text \<open>
  \<open>file.key.match(/bird-results-(.+)\.csv/)\<close>: the leftmost place where the literal
  matches and the group can be followed by \<open>.csv\<close>; the group is greedy, so the
  longest run of characters other than line terminators (line feed, carriage return,
  U+2028, U+2029) is tried first. The capture has its \<open>-\<close> replaced by \<open>:\<close>;
  without a match the time stamp is \<open>Unknown\<close>.
\<close>

fun dot_run :: "string \<Rightarrow> nat" where
  "dot_run [] = 0"
| "dot_run (c # cs) =
     (if c = LF \<or> c = CR \<or> prefix LS (c # cs) \<or> prefix PS (c # cs) then 0
      else Suc (dot_run cs))"

definition capture_at :: "string \<Rightarrow> string option" where
  "capture_at s =
     map_option (\<lambda>n. take n s) (find (\<lambda>n. prefix ''.csv'' (drop n s)) (rev [1..<Suc (dot_run s)]))"

fun timestampMatch :: "string \<Rightarrow> string option" where
  "timestampMatch [] = None"
| "timestampMatch (c # cs) =
     (case (if prefix ''bird-results-'' (c # cs) then capture_at (drop 13 (c # cs)) else None) of
        Some t \<Rightarrow> Some t
      | None \<Rightarrow> timestampMatch cs)"

definition timestamp_of :: "string \<Rightarrow> string" where
  "timestamp_of k =
     (case timestampMatch k of
        Some t \<Rightarrow> map (\<lambda>c. if c = CHR ''-'' then CHR '':'' else c) t
      | None \<Rightarrow> ''Unknown'')"

record ProcessingResult =
  filename :: string
  birdCount :: number
  extractionFolder :: string
  csvKey :: string
  downloadUrl :: string
  timestamp :: string

text \<open>
  The loop over \<open>recentFiles\<close> carries the results pushed so far, and, as its visible
  effects, the keys it has asked \<open>downloadData\<close> for and the lines it has written with
  \<open>console.error\<close>. One pass of the body: a file without a key is passed over; a
  rejected download or URL request is caught and logged; a text with fewer than two
  non-blank lines is passed over (\<open>continue\<close>); otherwise one result is pushed.
\<close>

record checker_run =
  results :: "ProcessingResult list"
  downloads :: "string list"
  errors :: "string list"

definition process_file :: "storage \<Rightarrow> int \<Rightarrow> ListOutputItem \<Rightarrow> checker_run \<Rightarrow> checker_run" where
  "process_file env now file run =
     (case key file of
        None \<Rightarrow> run
      | Some k \<Rightarrow>
          if k = [] then run
          else
            let run1 = run\<lparr>downloads := downloads run @ [k]\<rparr> in
            (case downloadData env k of
               Rejected \<Rightarrow> run1\<lparr>errors := errors run1 @ [''Error processing CSV '' @ k @ '':'']\<rparr>
             | Fulfilled csvText \<Rightarrow>
                 let lines = nonblank_lines csvText in
                 if length lines < 2 then run1
                 else
                   let (totalBirds, fileCount) = count_rows (drop 1 lines) (Num 0, 0) in
                   (case getUrl env now k of
                      Rejected \<Rightarrow> run1\<lparr>errors := errors run1 @ [''Error processing CSV '' @ k @ '':'']\<rparr>
                    | Fulfilled url \<Rightarrow>
                        run1\<lparr>results := results run1 @
                          [\<lparr>filename = show_nat fileCount @ '' images processed'',
                            birdCount = totalBirds,
                            extractionFolder = k,
                            csvKey = k,
                            downloadUrl = url,
                            timestamp = timestamp_of k\<rparr>]\<rparr>)))"

fun process_files ::
    "storage \<Rightarrow> int \<Rightarrow> ListOutputItem list \<Rightarrow> checker_run \<Rightarrow> checker_run" where
  "process_files env now [] run = run"
| "process_files env now (file # recentFiles) run =
     process_files env now recentFiles (process_file env now file run)"

text \<open>
  \<open>checkForResults\<close> on the component's state (\<open>isChecking\<close>, \<open>lastCheck\<close>),
  at clock time \<open>now\<close>, the time at which the check also asks for its URLs. A check
  records the state it leaves, what it handed to \<open>onResultsFound\<close> (\<open>None\<close>: the
  callback was not called), the downloads it asked for and the errors it logged. While
  \<open>isChecking\<close> holds the function returns at once; otherwise \<open>finally\<close> resets the
  flag on every path. Calls are taken one after another; a call that starts while
  another is suspended at an \<open>await\<close> is not modelled.
\<close>

record component =
  isChecking :: bool
  lastCheck :: "int option"

record check =
  after :: component
  delivered :: "ProcessingResult list option"
  requested :: "string list"
  logged :: "string list"

definition checkForResults ::
    "((ListOutputItem \<Rightarrow> ListOutputItem \<Rightarrow> number) \<Rightarrow> ListOutputItem list \<Rightarrow> ListOutputItem list)
      \<Rightarrow> storage \<Rightarrow> int \<Rightarrow> component \<Rightarrow> check" where
  "checkForResults engine env now c =
     (if isChecking c then \<lparr>after = c, delivered = None, requested = [], logged = []\<rparr>
      else
        (case list_prefix env of
           Rejected \<Rightarrow>
             \<lparr>after = c\<lparr>isChecking := False\<rparr>, delivered = None, requested = [],
              logged = [''Error checking for results:'']\<rparr>
         | Fulfilled None \<Rightarrow>
             \<lparr>after = c\<lparr>isChecking := False\<rparr>, delivered = None, requested = [], logged = []\<rparr>
         | Fulfilled (Some items) \<Rightarrow>
             if length (csvFiles engine items) = 0
             then \<lparr>after = c\<lparr>isChecking := False\<rparr>, delivered = Some [], requested = [],
                   logged = []\<rparr>
             else
               let recentFiles = take 5 (csvFiles engine items);
                   run = process_files env now recentFiles
                           \<lparr>results = [], downloads = [], errors = []\<rparr>
               in \<lparr>after = c\<lparr>isChecking := False, lastCheck := Some now\<rparr>,
                   delivered = Some (results run), requested = downloads run,
                   logged = errors run\<rparr>))"

section \<open>Enhanced results (src/components/EnhancedCSVViewer.tsx)\<close>

text \<open>
  \<open>loadCSVFiles\<close> keeps the items whose path contains \<open>enhanced_bird_results\<close> and
  ends with \<open>.csv\<close>, attaches a URL to each (none when \<open>getUrl\<close> rejects) and sorts
  with the comparator
  \<open>new Date(b.lastModified!).getTime() - new Date(a.lastModified!).getTime()\<close>,
  which takes the date as present. A rejected listing, or one without items (the
  \<open>filter\<close> call throws), sets the error message and leaves the shown files as
  they were.
\<close>

record CSVFile = ListOutputItem +
  csvUrl :: "string option"

definition isEnhancedCsv :: "ListOutputItem \<Rightarrow> bool" where
  "isEnhancedCsv item =
     (case path item of
        None \<Rightarrow> False
      | Some p \<Rightarrow> includes_str p ''enhanced_bird_results'' \<and> endsWith p ''.csv'')"

definition withUrl :: "storage \<Rightarrow> int \<Rightarrow> ListOutputItem \<Rightarrow> CSVFile" where
  "withUrl env now csv =
     \<lparr>key = key csv, path = path csv, lastModified = lastModified csv,
      csvUrl = (case path csv of
                  None \<Rightarrow> None
                | Some p \<Rightarrow>
                    (case getUrl env now p of Fulfilled url \<Rightarrow> Some url | Rejected \<Rightarrow> None))\<rparr>"

definition newestFirst_asserted ::
    "'a ListOutputItem_scheme \<Rightarrow> 'a ListOutputItem_scheme \<Rightarrow> number" where
  "newestFirst_asserted a b = minus_number (getTime (lastModified b)) (getTime (lastModified a))"

record viewer =
  shown :: "CSVFile list"
  loading :: bool
  load_error :: "string option"

definition loadCSVFiles ::
    "((CSVFile \<Rightarrow> CSVFile \<Rightarrow> number) \<Rightarrow> CSVFile list \<Rightarrow> CSVFile list)
      \<Rightarrow> storage \<Rightarrow> int \<Rightarrow> viewer \<Rightarrow> viewer" where
  "loadCSVFiles engine env now v =
     (case list_path env of
        Fulfilled (Some items) \<Rightarrow>
          let enhancedCSVs = filter isEnhancedCsv items;
              csvsWithUrls = map (withUrl env now) enhancedCSVs
          in v\<lparr>shown := js_sort engine newestFirst_asserted csvsWithUrls, loading := False,
               load_error := None\<rparr>
      | _ \<Rightarrow>
          v\<lparr>loading := False,
            load_error :=
              Some ''Failed to load enhanced CSV files. Make sure some processing has completed.''\<rparr>)"

text \<open>The time an item is ordered by when an absent date counts as the epoch.\<close>

definition time_or_epoch :: "'a ListOutputItem_scheme \<Rightarrow> int" where
  "time_or_epoch item = (case lastModified item of None \<Rightarrow> 0 | Some t \<Rightarrow> t)"

section \<open>Primary table text\<close>

text \<open>
  Modelled from the spec: the serializer of the primary result table (the Aggregator,
  in the processing function's handler) is not among the sources. The specification
  gives the format: delimited text, the header row \<open>itemName,count\<close>, then one row
  \<open>itemName,count\<close> per item; each row is written here as one line ended by a line
  feed, the count in decimal.
\<close>

definition serialize_row :: "string \<times> nat \<Rightarrow> string" where
  "serialize_row row = fst row @ '','' @ show_nat (snd row)"

definition serialize_table :: "(string \<times> nat) list \<Rightarrow> string" where
  "serialize_table rows =
     concat (map (\<lambda>line. line @ [LF]) (''itemName,count'' # map serialize_row rows))"

section \<open>Notebook start-up (sagemaker/lifecycle_config_production.sh)\<close>

text \<open>
  The script redirects its output to the log, announces its start, runs a shell as
  \<open>ec2-user\<close> on a here-document, and announces completion. There is no
  \<open>set -e\<close>, so a command's failure does not stop either shell, and a script's status
  is that of its last command. Of the host, the model keeps whether the processing
  script is present in the notebook directory, the log, and how often the processing
  script has been run. \<open>aws s3 cp\<close> either succeeds, and the file is present
  afterwards, or leaves the directory as it was. The dates the \<open>echo\<close> lines print
  are left out.
\<close>

record host =
  script_present :: bool
  lifecycle_log :: "string list"
  script_runs :: nat

record startup =
  copy_succeeds :: bool
  script_status :: nat
  config_json :: string

definition echo :: "string \<Rightarrow> host \<Rightarrow> host" where
  "echo line h = h\<lparr>lifecycle_log := lifecycle_log h @ [line]\<rparr>"

text \<open>The shell run by \<open>sudo -u ec2-user bash\<close>: the host it leaves and its exit status.\<close>

definition user_session :: "startup \<Rightarrow> host \<Rightarrow> host \<times> nat" where
  "user_session s h =
     (let h1 = echo ''Installing packages...'' h;
          h2 = echo (''Configuration written: '' @ config_json s) h1;
          h3 = echo ''Copying production script from S3...'' h2;
          h4 = h3\<lparr>script_present := script_present h3 \<or> copy_succeeds s\<rparr>
      in if \<not> script_present h4
         then (echo ''ERROR: Failed to download script from S3'' h4, 1)
         else
           let h5 = echo ''Running production script...'' h4
           in (h5\<lparr>script_runs := script_runs h5 + 1\<rparr>, script_status s))"

text \<open>The whole script: its last command is the \<open>echo\<close> of completion.\<close>

definition lifecycle :: "startup \<Rightarrow> host \<Rightarrow> host \<times> nat" where
  "lifecycle s h =
     (let h1 = echo ''=== PRODUCTION LIFECYCLE STARTED ==='' h;
          (h2, session_status) = user_session s h1;
          h3 = echo ''=== PRODUCTION LIFECYCLE COMPLETED ==='' h2
      in (h3, 0))"

section \<open>Concrete states\<close>

text \<open>
  States of storage, of the component and of the notebook host on which the properties
  below are evaluated: a namespace holding one table of only the header row; one holding
  an older table of two rows, a newer table of only the header row and a file that is no
  table, with two enhanced tables; the same namespace with URLs that carry the time of
  signing; one holding seven tables; an empty namespace; a listing in which one enhanced
  table has no \<open>lastModified\<close>; and an engine whose sort leaves the array as it is
  when the comparator is not consistent.
\<close>

definition header_only :: string where
  "header_only = ''itemName,count'' @ [LF]"

definition two_rows :: string where
  "two_rows = ''itemName,count'' @ [LF] @ ''a.jpg,2'' @ [LF] @ ''b.png,5'' @ [LF]"

definition header_only_store :: storage where
  "header_only_store =
     \<lparr>list_prefix = Fulfilled (Some
        [\<lparr>key = Some ''public/results/bird-results-2024-01-02.csv'', path = None,
          lastModified = Some 200\<rparr>]),
      list_path = Fulfilled (Some []),
      downloadData = (\<lambda>k. if k = ''public/results/bird-results-2024-01-02.csv''
                           then Fulfilled header_only else Rejected),
      getUrl = (\<lambda>t k. Fulfilled (''https://bucket/'' @ k))\<rparr>"

definition two_table_listing :: "ListOutputItem list" where
  "two_table_listing =
     [\<lparr>key = Some ''public/results/bird-results-2024-01-01.csv'', path = None,
       lastModified = Some 100\<rparr>,
      \<lparr>key = Some ''public/results/bird-results-2024-01-02.csv'', path = None,
       lastModified = Some 200\<rparr>,
      \<lparr>key = Some ''public/results/readme.txt'', path = None, lastModified = Some 300\<rparr>]"

definition enhanced_listing :: "ListOutputItem list" where
  "enhanced_listing =
     [\<lparr>key = None, path = Some ''public/results/bird-results-2024-01-01.csv'',
       lastModified = Some 100\<rparr>,
      \<lparr>key = None, path = Some ''public/results/enhanced_bird_results_1.csv'',
       lastModified = Some 150\<rparr>,
      \<lparr>key = None, path = Some ''public/results/enhanced_bird_results_2.csv'',
       lastModified = Some 250\<rparr>]"

definition two_table_store :: storage where
  "two_table_store =
     \<lparr>list_prefix = Fulfilled (Some two_table_listing),
      list_path = Fulfilled (Some enhanced_listing),
      downloadData = (\<lambda>k. if k = ''public/results/bird-results-2024-01-01.csv''
                           then Fulfilled two_rows
                           else if k = ''public/results/bird-results-2024-01-02.csv''
                           then Fulfilled header_only else Rejected),
      getUrl = (\<lambda>t k. Fulfilled (''https://bucket/'' @ k))\<rparr>"

definition seven_table_listing :: "ListOutputItem list" where
  "seven_table_listing =
     [\<lparr>key = Some ''public/results/t1.csv'', path = None, lastModified = Some 10\<rparr>,
      \<lparr>key = Some ''public/results/t2.csv'', path = None, lastModified = Some 20\<rparr>,
      \<lparr>key = Some ''public/results/t3.csv'', path = None, lastModified = Some 30\<rparr>,
      \<lparr>key = Some ''public/results/t4.csv'', path = None, lastModified = Some 40\<rparr>,
      \<lparr>key = Some ''public/results/t5.csv'', path = None, lastModified = Some 50\<rparr>,
      \<lparr>key = Some ''public/results/t6.csv'', path = None, lastModified = Some 60\<rparr>,
      \<lparr>key = Some ''public/results/t7.csv'', path = None, lastModified = Some 70\<rparr>]"

definition seven_table_store :: storage where
  "seven_table_store =
     \<lparr>list_prefix = Fulfilled (Some seven_table_listing),
      list_path = Fulfilled (Some []),
      downloadData = (\<lambda>k. Fulfilled two_rows),
      getUrl = (\<lambda>t k. Fulfilled (''https://bucket/'' @ k))\<rparr>"

definition signing_store :: storage where
  "signing_store =
     \<lparr>list_prefix = Fulfilled (Some two_table_listing),
      list_path = Fulfilled (Some enhanced_listing),
      downloadData = (\<lambda>k. if k = ''public/results/bird-results-2024-01-01.csv''
                           then Fulfilled two_rows
                           else if k = ''public/results/bird-results-2024-01-02.csv''
                           then Fulfilled header_only else Rejected),
      getUrl = (\<lambda>t k. Fulfilled (''https://bucket/'' @ k @ ''?X-Amz-Date='' @ show_nat (nat t)))\<rparr>"

definition empty_store :: storage where
  "empty_store =
     \<lparr>list_prefix = Fulfilled (Some []), list_path = Fulfilled (Some []),
      downloadData = (\<lambda>k. Rejected), getUrl = (\<lambda>t k. Rejected)\<rparr>"

definition dateless :: ListOutputItem where
  "dateless = \<lparr>key = None, path = Some ''public/results/enhanced_bird_results_1.csv'',
                lastModified = None\<rparr>"

definition dated :: ListOutputItem where
  "dated = \<lparr>key = None, path = Some ''public/results/enhanced_bird_results_2.csv'',
             lastModified = Some 10\<rparr>"

definition dateless_store :: storage where
  "dateless_store =
     \<lparr>list_prefix = Fulfilled (Some []),
      list_path = Fulfilled (Some [dateless, dated]),
      downloadData = (\<lambda>k. Rejected),
      getUrl = (\<lambda>t k. Fulfilled (''https://bucket/'' @ k))\<rparr>"

definition listing_order :: "('a \<Rightarrow> 'a \<Rightarrow> number) \<Rightarrow> 'a list \<Rightarrow> 'a list" where
  "listing_order comparefn xs = xs"

definition idle :: component where
  "idle = \<lparr>isChecking = False, lastCheck = None\<rparr>"

definition blank_viewer :: viewer where
  "blank_viewer = \<lparr>shown = [], loading = True, load_error = None\<rparr>"

definition failed_fetch :: startup where
  "failed_fetch = \<lparr>copy_succeeds = False, script_status = 0, config_json = ''{}''\<rparr>"

definition fresh_host :: host where
  "fresh_host = \<lparr>script_present = False, lifecycle_log = [], script_runs = 0\<rparr>"

section \<open>Properties\<close>

subsection \<open>Access policy\<close>

lemma guest_can_unfold:
  "guest_can a k =
     ((prefix ''public/uploads/'' k \<or> prefix ''uploads/'' k)
      \<or> (a = Read \<and> (prefix ''public/results/'' k \<or> prefix ''public/processed/'' k
                       \<or> prefix ''results/'' k \<or> prefix ''processed/'' k)))"
  by (cases a) (auto simp: guest_can_def storage_access_def path_covers_def)

lemma read_only_not_uploads:
  assumes "p \<in> set read_only_prefixes" and "prefix p k"
  shows "\<not> prefix ''public/uploads/'' k" and "\<not> prefix ''uploads/'' k"
  using assms by (auto simp: read_only_prefixes_def prefix_def)

text \<open>
  C10. Guests may write and delete exactly the keys under \<open>uploads/\<close> and
  \<open>public/uploads/\<close>. The only rules of the table that carry \<open>write\<close> or
  \<open>delete\<close> are the two uploads paths, and a key under one of the results or processed
  paths can be read but neither written nor deleted by a guest.
\<close>

theorem guest_mutation_only_under_uploads:
  "(guest_can Write k \<longleftrightarrow> prefix ''public/uploads/'' k \<or> prefix ''uploads/'' k)
   \<and> (guest_can Delete k \<longleftrightarrow> prefix ''public/uploads/'' k \<or> prefix ''uploads/'' k)
   \<and> map fst (filter (\<lambda>(pat, acts). Write \<in> set acts \<or> Delete \<in> set acts) storage_access)
       = [''public/uploads/*'', ''uploads/*'']
   \<and> (p \<in> set read_only_prefixes \<and> prefix p k
        \<longrightarrow> guest_can Read k \<and> \<not> guest_can Write k \<and> \<not> guest_can Delete k)"
proof -
  have w: "guest_can Write k \<longleftrightarrow> prefix ''public/uploads/'' k \<or> prefix ''uploads/'' k"
    by (simp add: guest_can_unfold)
  have d: "guest_can Delete k \<longleftrightarrow> prefix ''public/uploads/'' k \<or> prefix ''uploads/'' k"
    by (simp add: guest_can_unfold)
  have t: "map fst (filter (\<lambda>(pat, acts). Write \<in> set acts \<or> Delete \<in> set acts) storage_access)
       = [''public/uploads/*'', ''uploads/*'']"
    by (simp add: storage_access_def)
  have r: "guest_can Read k \<and> \<not> guest_can Write k \<and> \<not> guest_can Delete k"
    if "p \<in> set read_only_prefixes" "prefix p k"
  proof -
    have "guest_can Read k"
      using that by (auto simp: guest_can_unfold read_only_prefixes_def)
    moreover have "\<not> guest_can Write k" "\<not> guest_can Delete k"
      using read_only_not_uploads [OF that] by (simp_all add: w d)
    ultimately show ?thesis by simp
  qed
  from w d t r show ?thesis by blast
qed

theorem guest_mutation_only_under_uploads_witness:
  "guest_can Read ''public/results/bird-results-1.csv''
   \<and> \<not> guest_can Write ''public/results/bird-results-1.csv''
   \<and> \<not> guest_can Delete ''public/results/bird-results-1.csv''
   \<and> guest_can Write ''uploads/a.zip''"
proof -
  have m: "''public/results/'' \<in> set read_only_prefixes"
    by (simp add: read_only_prefixes_def)
  have p: "prefix ''public/results/'' ''public/results/bird-results-1.csv''"
    by simp
  have u: "prefix ''uploads/'' ''uploads/a.zip''"
    by simp
  from guest_mutation_only_under_uploads
         [of "''public/results/bird-results-1.csv''" "''public/results/''"] m p
  have "guest_can Read ''public/results/bird-results-1.csv''
   \<and> \<not> guest_can Write ''public/results/bird-results-1.csv''
   \<and> \<not> guest_can Delete ''public/results/bird-results-1.csv''"
    by blast
  moreover from guest_mutation_only_under_uploads [of "''uploads/a.zip''" "[]"] u
  have "guest_can Write ''uploads/a.zip''"
    by blast
  ultimately show ?thesis by blast
qed

subsection \<open>Upload keys\<close>

lemma separable_digits: "separable digits"
  by (simp add: separable_def digits_def replace_char_def)

lemma separable_single: "separable [c]"
  by (simp add: separable_def)

lemma separable_sign: "separable ''+-''"
  by (simp add: separable_def replace_char_def)

lemma separable_iso: "list_all separable iso_pattern" "list_all separable iso_pattern_expanded"
  by (simp_all add: iso_pattern_expanded_def iso_pattern_def separable_digits separable_single separable_sign)

lemma replace_inj_on_fits:
  "fits p a \<Longrightarrow> fits p b \<Longrightarrow> list_all separable p \<Longrightarrow>
   replace_colon_dot a = replace_colon_dot b \<Longrightarrow> a = b"
  unfolding fits_def
proof (induction p arbitrary: a b)
  case Nil
  then show ?case by simp
next
  case (Cons cl p)
  from Cons.prems(1) obtain x xs where a: "a = x # xs" "x \<in> set cl" "list_all2 (\<lambda>cl c. c \<in> set cl) p xs"
    by (auto simp: list_all2_Cons1)
  from Cons.prems(2) obtain y ys where b: "b = y # ys" "y \<in> set cl" "list_all2 (\<lambda>cl c. c \<in> set cl) p ys"
    by (auto simp: list_all2_Cons1)
  from Cons.prems(3) have sep: "separable cl" and rest: "list_all separable p"
    by simp_all
  from Cons.prems(4) a b have hd: "replace_char x = replace_char y"
    and tl: "replace_colon_dot xs = replace_colon_dot ys"
    by (simp_all add: replace_colon_dot_def)
  from sep hd a(2) b(2) have "x = y"
    unfolding separable_def by blast
  moreover have "xs = ys"
    using Cons.IH [OF a(3) b(3) rest tl] .
  ultimately show ?case using a b by simp
qed


lemma fits_Cons:
  "fits (cl # p) s \<Longrightarrow> \<exists>x xs. s = x # xs \<and> x \<in> set cl"
  by (auto simp: fits_def list_all2_Cons1)

lemma fits_length: "fits p s \<Longrightarrow> length s = length p"
  by (simp add: fits_def list_all2_lengthD)

lemma same_pattern_distinct:
  assumes "fits p t1" "fits p t2" "list_all separable p"
    and "replace_colon_dot t1 @ ''-'' @ n1 = replace_colon_dot t2 @ ''-'' @ n2"
  shows "t1 = t2 \<and> n1 = n2"
proof -
  have "length (replace_colon_dot t1) = length (replace_colon_dot t2)"
    using assms(1,2) by (simp add: replace_colon_dot_def fits_length)
  with assms(4) have r: "replace_colon_dot t1 = replace_colon_dot t2" and n: "n1 = n2"
    by simp_all
  from replace_inj_on_fits [OF assms(1,2,3) r] n show ?thesis by simp
qed

lemma mixed_pattern_differ:
  assumes "fits iso_pattern t1" "fits iso_pattern_expanded t2"
  shows "replace_colon_dot t1 @ r1 \<noteq> replace_colon_dot t2 @ r2"
proof -
  from assms(1) obtain x xs where x: "t1 = x # xs" "x \<in> set digits"
    using fits_Cons [of digits "tl iso_pattern" t1] by (auto simp: iso_pattern_def)
  from assms(2) obtain y ys where y: "t2 = y # ys" "y \<in> set ''+-''"
    using fits_Cons [of "''+-''" "tl iso_pattern_expanded" t2]
    by (auto simp: iso_pattern_expanded_def)
  from x(2) y(2) have "replace_char x \<noteq> replace_char y"
    by (auto simp: digits_def replace_char_def)
  with x(1) y(1) show ?thesis
    by (simp add: replace_colon_dot_def)
qed

text \<open>
  C5. Two uploads whose (time stamp, file name) pairs differ get different keys: the key
  is \<open>uploads/\<close>, the ISO time stamp with colons and dots replaced by \<open>-\<close>,
  a \<open>-\<close> and the name, and the time stamp's fixed layout lets both be read
  back from the key.
\<close>

theorem upload_keys_distinct:
  assumes "isISOString t1" and "isISOString t2" and "(t1, n1) \<noteq> (t2, n2)"
  shows "uploadKey t1 n1 \<noteq> uploadKey t2 n2"
proof
  assume "uploadKey t1 n1 = uploadKey t2 n2"
  then have e: "replace_colon_dot t1 @ ''-'' @ n1 = replace_colon_dot t2 @ ''-'' @ n2"
    by (simp add: uploadKey_def)
  consider "fits iso_pattern t1" "fits iso_pattern t2"
    | "fits iso_pattern_expanded t1" "fits iso_pattern_expanded t2"
    | "fits iso_pattern t1" "fits iso_pattern_expanded t2"
    | "fits iso_pattern t2" "fits iso_pattern_expanded t1"
    using assms(1,2) by (auto simp: isISOString_def)
  then have "t1 = t2 \<and> n1 = n2"
  proof cases
    case 1
    then show ?thesis using same_pattern_distinct [OF _ _ separable_iso(1) e] by simp
  next
    case 2
    then show ?thesis using same_pattern_distinct [OF _ _ separable_iso(2) e] by simp
  next
    case 3
    then show ?thesis using mixed_pattern_differ [of t1 t2 "''-'' @ n1" "''-'' @ n2"] e by simp
  next
    case 4
    then show ?thesis using mixed_pattern_differ [of t2 t1 "''-'' @ n2" "''-'' @ n1"] e by simp
  qed
  with assms(3) show False by simp
qed

theorem upload_keys_distinct_witness:
  "uploadKey ''2024-01-02T03:04:05.678Z'' ''birds.zip'' \<noteq> uploadKey ''2024-01-02T03:04:05.679Z'' ''birds.zip''
   \<and> uploadKey ''2024-01-02T03:04:05.678Z'' ''birds.zip'' = ''uploads/2024-01-02T03-04-05-678Z-birds.zip''"
proof -
  have a: "isISOString ''2024-01-02T03:04:05.678Z''"
    by (simp add: isISOString_def fits_def iso_pattern_def digits_def)
  have b: "isISOString ''2024-01-02T03:04:05.679Z''"
    by (simp add: isISOString_def fits_def iso_pattern_def digits_def)
  have c: "(''2024-01-02T03:04:05.678Z'', ''birds.zip'') \<noteq> (''2024-01-02T03:04:05.679Z'', ''birds.zip'')"
    by simp
  have d: "uploadKey ''2024-01-02T03:04:05.678Z'' ''birds.zip'' = ''uploads/2024-01-02T03-04-05-678Z-birds.zip''"
    by (simp add: uploadKey_def replace_colon_dot_def replace_char_def)
  from upload_keys_distinct [OF a b c] d show ?thesis by simp
qed


subsection \<open>Which uploads are processed\<close>

lemma endsWith_suffix: "endsWith s suf = suffix suf s"
  by (simp add: endsWith_def suffix_to_prefix)

lemma triggers_processor_iff:
  "triggers_processor k \<longleftrightarrow>
     (prefix ''uploads/'' k \<or> prefix ''public/uploads/'' k) \<and> list_ex (endsWith k) accepted_suffixes"
  by (auto simp: triggers_processor_def notification_filters_def imageExtensions_def accepted_suffixes_def)

lemma endsWith_append:
  assumes "suf \<noteq> []" and "hd suf \<notin> set a"
  shows "endsWith (a @ b) suf = endsWith b suf"
proof -
  have "suffix suf (a @ b) \<longleftrightarrow> suffix suf b"
  proof
    assume "suffix suf (a @ b)"
    then consider "suffix suf b" | xs where "suf = xs @ b" "suffix xs a"
      by (auto simp: suffix_append)
    then show "suffix suf b"
    proof cases
      case 1
      then show ?thesis .
    next
      case 2
      show ?thesis
      proof (cases xs)
        case Nil
        with 2 show ?thesis by simp
      next
        case (Cons x xs')
        with 2 have "hd suf = x" "x \<in> set a"
          by (auto simp: suffix_def)
        with assms(2) show ?thesis by simp
      qed
    qed
  next
    assume "suffix suf b"
    then show "suffix suf (a @ b)" by (simp add: suffix_appendI)
  qed
  then show ?thesis by (simp add: endsWith_suffix)
qed

lemma no_dot_in_key_head:
  "CHR ''.'' \<notin> set (pre @ ''uploads/'' @ replace_colon_dot ts @ ''-'')" if "CHR ''.'' \<notin> set pre"
  using that by (auto simp: replace_colon_dot_def replace_char_def)

lemma endsWith_uploadKey:
  assumes "suf \<in> set accepted_suffixes" and "CHR ''.'' \<notin> set pre"
  shows "endsWith (pre @ uploadKey ts name) suf = endsWith name suf"
proof -
  from assms(1) have s: "suf \<noteq> []" "hd suf = CHR ''.''"
    by (auto simp: accepted_suffixes_def imageExtensions_def)
  have "pre @ uploadKey ts name = (pre @ ''uploads/'' @ replace_colon_dot ts @ ''-'') @ name"
    by (simp add: uploadKey_def)
  then show ?thesis
    using endsWith_append [OF s(1), of "pre @ ''uploads/'' @ replace_colon_dot ts @ ''-''" name]
      no_dot_in_key_head [OF assms(2), of ts] s(2) by simp
qed

text \<open>
  What the notification filters do: an uploaded file invokes the processing function if
  and only if its name ends with one of \<open>.zip .jpg .jpeg .png .gif .bmp\<close>,
  compared character by character (lower case only); this holds for the key as
  \<open>uploadToS3\<close> builds it and for the same key under \<open>public/\<close>.
\<close>

theorem upload_triggers_iff_exact_suffix:
  assumes "pre = [] \<or> pre = ''public/''"
  shows "triggers_processor (pre @ uploadKey ts name) \<longleftrightarrow> list_ex (endsWith name) accepted_suffixes"
proof -
  have p: "prefix ''uploads/'' (pre @ uploadKey ts name) \<or> prefix ''public/uploads/'' (pre @ uploadKey ts name)"
    using assms by (auto simp: uploadKey_def)
  have d: "CHR ''.'' \<notin> set pre"
    using assms by auto
  have "list_ex (endsWith (pre @ uploadKey ts name)) accepted_suffixes = list_ex (endsWith name) accepted_suffixes"
    using endsWith_uploadKey [OF _ d, of _ ts name] by (simp add: list_ex_iff)
  with p show ?thesis by (simp add: triggers_processor_iff)
qed

theorem upload_triggers_iff_exact_suffix_witness:
  "triggers_processor (uploadKey ''2024-01-02T03:04:05.678Z'' ''a.jpg'')
   \<and> \<not> triggers_processor (''public/'' @ uploadKey ''2024-01-02T03:04:05.678Z'' ''notes.txt'')"
proof -
  have a: "list_ex (endsWith ''a.jpg'') accepted_suffixes"
    by (simp add: accepted_suffixes_def imageExtensions_def endsWith_def)
  have b: "\<not> list_ex (endsWith ''notes.txt'') accepted_suffixes"
    by (simp add: accepted_suffixes_def imageExtensions_def endsWith_def)
  from upload_triggers_iff_exact_suffix [of "[]" "''2024-01-02T03:04:05.678Z''" "''a.jpg''"] a
  have "triggers_processor (uploadKey ''2024-01-02T03:04:05.678Z'' ''a.jpg'')"
    by simp
  moreover
  from upload_triggers_iff_exact_suffix [of "''public/''" "''2024-01-02T03:04:05.678Z''" "''notes.txt''"] b
  have "\<not> triggers_processor (''public/'' @ uploadKey ''2024-01-02T03:04:05.678Z'' ''notes.txt'')"
    by simp
  ultimately show ?thesis by simp
qed

text \<open>
  C4. The claim fails, and the code departs from what it sets out to do
  (\<open>// Also trigger on individual image uploads\<close>; the uploader offers
  \<open>JPG, PNG, GIF, BMP\<close>). The browser-side selection goes by MIME type and keeps
  \<open>A.JPG\<close> of type \<open>image/jpeg\<close>; \<open>uploadToS3\<close> stores it under
  \<open>uploads/2024-01-02T03-04-05-678Z-A.JPG\<close>; no notification filter matches that
  key, so the processing function is never invoked for the image, although its name ends
  with \<open>.jpg\<close> when case is ignored. The same file named \<open>a.jpg\<close> is processed.
\<close>

theorem uppercase_extension_not_triggered:
  "handleFiles [\<lparr>file_name = ''A.JPG'', file_type = ''image/jpeg''\<rparr>]
     = [\<lparr>file_name = ''A.JPG'', file_type = ''image/jpeg''\<rparr>]
   \<and> uploadKey ''2024-01-02T03:04:05.678Z'' ''A.JPG'' = ''uploads/2024-01-02T03-04-05-678Z-A.JPG''
   \<and> \<not> triggers_processor (uploadKey ''2024-01-02T03:04:05.678Z'' ''A.JPG'')
   \<and> accepted_ignoring_case ''A.JPG''
   \<and> triggers_processor (uploadKey ''2024-01-02T03:04:05.678Z'' ''a.jpg'')"
  by (simp add: handleFiles_def valid_type_def triggers_processor_def notification_filters_def
        imageExtensions_def uploadKey_def replace_colon_dot_def replace_char_def endsWith_def
        accepted_ignoring_case_def accepted_suffixes_def toLowerCase_def)

subsection \<open>Notebook start-up\<close>

text \<open>
  What the shell run by \<open>sudo\<close> does: when the processing script is absent after
  the copy step, it exits with status 1, the log of the start-up carries the error line,
  and the processing script is not run.
\<close>

theorem fetch_failure_reported_script_not_run:
  assumes "\<not> (script_present h \<or> copy_succeeds s)"
  shows "snd (user_session s h) = 1
    \<and> ''ERROR: Failed to download script from S3'' \<in> set (lifecycle_log (fst (lifecycle s h)))
    \<and> ''Running production script...'' \<notin> set (lifecycle_log (fst (lifecycle s h))) - set (lifecycle_log h)
    \<and> script_runs (fst (lifecycle s h)) = script_runs h"
  using assms by (simp add: lifecycle_def user_session_def echo_def Let_def)

theorem fetch_failure_reported_script_not_run_witness:
  "snd (user_session failed_fetch fresh_host) = 1
    \<and> ''ERROR: Failed to download script from S3'' \<in> set (lifecycle_log (fst (lifecycle failed_fetch fresh_host)))
    \<and> script_runs (fst (lifecycle failed_fetch fresh_host)) = 0"
proof -
  have "\<not> (script_present fresh_host \<or> copy_succeeds failed_fetch)"
    by (simp add: fresh_host_def failed_fetch_def)
  from fetch_failure_reported_script_not_run [OF this] show ?thesis
    by (simp add: fresh_host_def)
qed

text \<open>
  C8. The claim fails, and the code departs from what it sets out to do (it tests for
  the script and writes \<open>exit 1\<close>). On a host without the script and a copy that
  fails, the shell run by \<open>sudo\<close> logs the error and exits with status 1 without
  running the script, but \<open>exit 1\<close> ends only that shell: the start-up script tests
  no status, goes on to announce completion as its last line and exits with status 0.
\<close>

theorem lifecycle_exits_zero_after_failed_fetch:
  "snd (user_session failed_fetch fresh_host) = 1
   \<and> script_runs (fst (lifecycle failed_fetch fresh_host)) = 0
   \<and> ''ERROR: Failed to download script from S3''
         \<in> set (lifecycle_log (fst (lifecycle failed_fetch fresh_host)))
   \<and> ''Running production script...''
         \<notin> set (lifecycle_log (fst (lifecycle failed_fetch fresh_host)))
   \<and> last (lifecycle_log (fst (lifecycle failed_fetch fresh_host)))
       = ''=== PRODUCTION LIFECYCLE COMPLETED ===''
   \<and> snd (lifecycle failed_fetch fresh_host) = 0"
  by (simp add: lifecycle_def user_session_def echo_def Let_def failed_fetch_def fresh_host_def)

subsection \<open>Numbers and sorting\<close>

lemma bit_length_bound: "0 < n \<Longrightarrow> 2 ^ (bit_length n - 1) \<le> n"
proof (induction n rule: bit_length.induct)
  case (1 n)
  show ?case
  proof (cases "n div 2 = 0")
    case True
    with 1(2) have "n = 1" by auto
    then show ?thesis by (simp add: bit_length.simps)
  next
    case False
    then have "2 ^ (bit_length (n div 2) - 1) \<le> n div 2"
      using 1 by simp
    moreover have "bit_length n = Suc (bit_length (n div 2))"
      using 1(2) by (subst bit_length.simps) simp
    moreover have "0 < bit_length (n div 2)"
      using False by (subst bit_length.simps) simp
    ultimately have "2 ^ (bit_length n - 1) \<le> 2 * (n div 2)"
      by (cases "bit_length (n div 2)") simp_all
    then show ?thesis by simp
  qed
qed

lemma round_nat_small: "n < 2 ^ 53 \<Longrightarrow> round_nat n = n"
  by (simp add: round_nat_def)

lemma round_nat_pos: "0 < n \<Longrightarrow> 0 < round_nat n"
proof (cases "n < 2 ^ 53")
  case True
  assume "0 < n"
  with True show ?thesis by (simp add: round_nat_def)
next
  case False
  assume n: "0 < n"
  define ulp :: nat where "ulp = 2 ^ (bit_length n - 53)"
  have "ulp \<le> 2 ^ (bit_length n - 1)"
    unfolding ulp_def by (rule power_increasing) simp_all
  with bit_length_bound [OF n] have "ulp \<le> n" by simp
  moreover have "0 < ulp" by (simp add: ulp_def)
  ultimately have "0 < n div ulp" by (simp add: div_greater_zero_iff)
  then have "0 < (n div ulp) * ulp" "0 < (n div ulp + 1) * ulp"
    using \<open>0 < ulp\<close> by simp_all
  then show ?thesis
    using False by (simp add: round_nat_def Let_def ulp_def)
qed

lemma to_number_small: "\<bar>x\<bar> < 2 ^ 53 \<Longrightarrow> to_number x = Num x"
proof -
  assume a: "\<bar>x\<bar> < 2 ^ 53"
  then have n: "nat \<bar>x\<bar> < 2 ^ 53"
    by (simp add: nat_less_iff)
  have "(2::nat) ^ 53 \<le> 2 ^ 1024"
    by (rule power_increasing) simp_all
  with n have "\<not> 2 ^ 1024 \<le> nat \<bar>x\<bar>" by simp
  with n show ?thesis
    by (simp add: to_number_def round_nat_small Let_def)
qed

lemma to_number_nat: "n < 2 ^ 53 \<Longrightarrow> to_number (int n) = Num (int n)"
proof -
  assume n: "n < 2 ^ 53"
  have "(2::nat) ^ 53 \<le> 2 ^ 1024"
    by (rule power_increasing) simp_all
  with n have "\<not> 2 ^ 1024 \<le> n" by simp
  with n show ?thesis
    by (simp add: to_number_def round_nat_small Let_def)
qed

lemma to_number_sign:
  "positive (to_number x) = (0 < x)" "negative (to_number x) = (x < 0)"
  "(to_number x = Num 0) = (x = 0)" "to_number x \<noteq> NaN"
proof -
  have p: "0 < round_nat (nat \<bar>x\<bar>)" if "x \<noteq> 0"
    using that by (intro round_nat_pos) simp
  have z: "round_nat (nat \<bar>x\<bar>) = 0" if "x = 0"
    using that by (simp add: round_nat_def)
  show "positive (to_number x) = (0 < x)"
    using p z by (cases "x = 0") (auto simp: to_number_def Let_def)
  show "negative (to_number x) = (x < 0)"
    using p z by (cases "x = 0") (auto simp: to_number_def Let_def)
  show "(to_number x = Num 0) = (x = 0)"
    using p z by (cases "x = 0") (auto simp: to_number_def Let_def)
  show "to_number x \<noteq> NaN"
    by (simp add: to_number_def Let_def)
qed

lemma set_insert_sorted: "set (insert_sorted cmp x ys) = insert x (set ys)"
  by (induction ys) auto

lemma set_insertion_sort: "set (insertion_sort cmp xs) = set xs"
  by (induction xs) (simp_all add: insertion_sort_def set_insert_sorted)

lemma length_insert_sorted: "length (insert_sorted cmp x ys) = Suc (length ys)"
  by (induction ys) auto

lemma length_insertion_sort: "length (insertion_sort cmp xs) = length xs"
  by (induction xs) (simp_all add: insertion_sort_def length_insert_sorted)

lemma sorted_insert_sorted:
  assumes "\<And>a b. a \<in> insert x (set ys) \<Longrightarrow> b \<in> insert x (set ys) \<Longrightarrow>
             positive (sortCompare cmp a b) = (t a < t b)"
    and "sorted_wrt (\<lambda>a b. t b \<le> t a) ys"
  shows "sorted_wrt (\<lambda>a b. t b \<le> (t a :: int)) (insert_sorted cmp x ys)"
  using assms
proof (induction ys)
  case Nil
  then show ?case by simp
next
  case (Cons y ys)
  show ?case
  proof (cases "positive (sortCompare cmp x y)")
    case False
    then have xy: "t y \<le> t x" using Cons.prems(1) [of x y] by simp
    have "\<forall>z \<in> set ys. t z \<le> t y" using Cons.prems(2) by simp
    with xy have "\<forall>z \<in> set ys. t z \<le> t x" by auto
    with False xy Cons.prems(2) show ?thesis by simp
  next
    case True
    then have yx: "t x \<le> t y" using Cons.prems(1) [of x y] by simp
    have ih: "sorted_wrt (\<lambda>a b. t b \<le> t a) (insert_sorted cmp x ys)"
    proof (rule Cons.IH)
      fix a b
      assume "a \<in> insert x (set ys)" "b \<in> insert x (set ys)"
      then show "positive (sortCompare cmp a b) = (t a < t b)"
        using Cons.prems(1) [of a b] by auto
    next
      show "sorted_wrt (\<lambda>a b. t b \<le> t a) ys"
        using Cons.prems(2) by simp
    qed
    have "\<forall>z \<in> set (insert_sorted cmp x ys). t z \<le> t y"
      using yx Cons.prems(2) by (simp add: set_insert_sorted)
    with True ih show ?thesis by simp
  qed
qed

lemma sorted_insertion_sort:
  assumes "\<And>a b. a \<in> set xs \<Longrightarrow> b \<in> set xs \<Longrightarrow> positive (sortCompare cmp a b) = (t a < t b)"
  shows "sorted_wrt (\<lambda>a b. t b \<le> (t a :: int)) (insertion_sort cmp xs)"
  using assms
proof (induction xs)
  case Nil
  then show ?case by (simp add: insertion_sort_def)
next
  case (Cons x xs)
  have ih: "sorted_wrt (\<lambda>a b. t b \<le> t a) (insertion_sort cmp xs)"
  proof (rule Cons.IH)
    fix a b
    assume "a \<in> set xs" "b \<in> set xs"
    then show "positive (sortCompare cmp a b) = (t a < t b)"
      using Cons.prems [of a b] by simp
  qed
  have "sorted_wrt (\<lambda>a b. t b \<le> t a) (insert_sorted cmp x (insertion_sort cmp xs))"
    by (rule sorted_insert_sorted) (use Cons.prems ih in \<open>simp_all add: set_insertion_sort\<close>)
  then show ?case by (simp add: insertion_sort_def)
qed

lemma consistent_difference:
  assumes "\<And>a b. a \<in> set xs \<Longrightarrow> b \<in> set xs \<Longrightarrow> cmp a b = to_number (t b - t a)"
  shows "consistent cmp xs"
  unfolding consistent_def
proof (intro ballI conjI impI)
  fix a b
  assume ab: "a \<in> set xs" "b \<in> set xs"
  show "cmp a b \<noteq> NaN"
    using ab by (simp add: assms to_number_sign)
  show "cmp a a = Num 0"
    using ab by (simp add: assms to_number_sign)
  show "cmp b a = Num 0" if "cmp a b = Num 0"
    using ab that by (simp add: assms to_number_sign)
  fix c
  assume c: "c \<in> set xs"
  show "cmp a c = Num 0" if "cmp a b = Num 0 \<and> cmp b c = Num 0"
    using ab c that by (simp add: assms to_number_sign)
  show "negative (cmp a c)" if "negative (cmp a b) \<and> negative (cmp b c)"
    using ab c that by (simp add: assms to_number_sign)
  show "positive (cmp a c)" if "positive (cmp a b) \<and> positive (cmp b c)"
    using ab c that by (simp add: assms to_number_sign)
qed

lemma newestFirst_difference:
  "newestFirst a b = to_number (time_or_epoch b - time_or_epoch a)"
  by (simp add: newestFirst_def date_or_epoch_def getTime_def time_or_epoch_def
      split: option.splits)

lemma newestFirst_asserted_difference:
  "lastModified a \<noteq> None \<Longrightarrow> lastModified b \<noteq> None \<Longrightarrow>
   newestFirst_asserted a b = to_number (time_or_epoch b - time_or_epoch a)"
  by (auto simp: newestFirst_asserted_def getTime_def time_or_epoch_def)

lemma positive_sortCompare_difference:
  "cmp a b = to_number (t b - t a) \<Longrightarrow> positive (sortCompare cmp a b) = (t a < t b)"
  using to_number_sign(1) [of "t b - t a"] to_number_sign(4) [of "t b - t a"]
  by (cases "to_number (t b - t a)") (simp_all add: sortCompare_def)

lemma consistent_newestFirst: "consistent newestFirst xs"
  by (rule consistent_difference) (rule newestFirst_difference)

lemma consistent_newestFirst_asserted:
  "\<forall>f \<in> set xs. lastModified f \<noteq> None \<Longrightarrow> consistent newestFirst_asserted xs"
  by (rule consistent_difference) (simp add: newestFirst_asserted_difference)

lemma csvFiles_stable:
  "csvFiles engine items = insertion_sort newestFirst (filter isCsvKey items)"
  by (simp add: csvFiles_def js_sort_def consistent_newestFirst)

lemma csvFiles_sorted:
  "sorted_wrt (\<lambda>a b. time_or_epoch b \<le> time_or_epoch a) (csvFiles engine items)"
  unfolding csvFiles_stable
  by (rule sorted_insertion_sort) (rule positive_sortCompare_difference, rule newestFirst_difference)

lemma set_csvFiles: "set (csvFiles engine items) = {f \<in> set items. isCsvKey f}"
  by (auto simp: csvFiles_stable set_insertion_sort)

subsection \<open>The loop over the recent files\<close>

lemma process_file_reports:
  assumes "key f = Some k" and "k \<noteq> []" and "downloadData env k = Fulfilled csvText"
    and "2 \<le> length (nonblank_lines csvText)" and "getUrl env now k = Fulfilled url"
  shows "results (process_file env now f run) = results run @
           [\<lparr>filename = show_nat (snd (count_rows (drop 1 (nonblank_lines csvText)) (Num 0, 0)))
                          @ '' images processed'',
             birdCount = fst (count_rows (drop 1 (nonblank_lines csvText)) (Num 0, 0)),
             extractionFolder = k, csvKey = k, downloadUrl = url, timestamp = timestamp_of k\<rparr>]"
    and "downloads (process_file env now f run) = downloads run @ [k]"
  using assms by (simp_all add: process_file_def Let_def split_def)

lemma process_file_passes:
  assumes "key f = None \<or> key f = Some []
     \<or> (\<exists>k. key f = Some k \<and> (downloadData env k = Rejected
          \<or> (\<exists>csvText. downloadData env k = Fulfilled csvText
                \<and> (length (nonblank_lines csvText) < 2 \<or> getUrl env now k = Rejected))))"
  shows "results (process_file env now f run) = results run"
  using assms by (auto simp: process_file_def Let_def split_def)

lemma process_file_skips:
  assumes "\<not> (\<exists>k csvText url. key f = Some k \<and> k \<noteq> [] \<and> downloadData env k = Fulfilled csvText
          \<and> 2 \<le> length (nonblank_lines csvText) \<and> getUrl env now k = Fulfilled url)"
  shows "results (process_file env now f run) = results run"
proof -
  have "key f = None \<or> key f = Some []
     \<or> (\<exists>k. key f = Some k \<and> (downloadData env k = Rejected
          \<or> (\<exists>csvText. downloadData env k = Fulfilled csvText
                \<and> (length (nonblank_lines csvText) < 2 \<or> getUrl env now k = Rejected))))"
  proof (cases "key f")
    case None
    then show ?thesis by simp
  next
    case (Some k)
    show ?thesis
    proof (cases "downloadData env k")
      case Rejected
      with Some show ?thesis by simp
    next
      case (Fulfilled csvText)
      show ?thesis
      proof (cases "getUrl env now k")
        case Rejected
        with Some Fulfilled show ?thesis by simp
      next
        case url: (Fulfilled url)
        have "k = [] \<or> length (nonblank_lines csvText) < 2"
        proof (rule ccontr)
          assume "\<not> (k = [] \<or> length (nonblank_lines csvText) < 2)"
          then have "k \<noteq> []" "2 \<le> length (nonblank_lines csvText)" by simp_all
          with Some Fulfilled url assms show False by blast
        qed
        then show ?thesis
        proof
          assume "k = []"
          with Some show ?thesis by simp
        next
          assume "length (nonblank_lines csvText) < 2"
          with Some Fulfilled show ?thesis by simp
        qed
      qed
    qed
  qed
  then show ?thesis by (rule process_file_passes)
qed

lemma process_file_step:
  "\<exists>rs. results (process_file env now f run) = results run @ rs
     \<and> subseq (map (\<lambda>r. Some (csvKey r)) rs) [key f]
     \<and> (\<forall>r \<in> set rs. \<exists>csvText. downloadData env (csvKey r) = Fulfilled csvText
            \<and> 2 \<le> length (nonblank_lines csvText))"
proof (cases "\<exists>k csvText url. key f = Some k \<and> k \<noteq> [] \<and> downloadData env k = Fulfilled csvText
          \<and> 2 \<le> length (nonblank_lines csvText) \<and> getUrl env now k = Fulfilled url")
  case True
  then obtain k csvText url where h: "key f = Some k" "k \<noteq> []"
    "downloadData env k = Fulfilled csvText" "2 \<le> length (nonblank_lines csvText)"
    "getUrl env now k = Fulfilled url"
    by blast
  define r where "r = \<lparr>filename = show_nat (snd (count_rows (drop 1 (nonblank_lines csvText)) (Num 0, 0)))
                          @ '' images processed'',
             birdCount = fst (count_rows (drop 1 (nonblank_lines csvText)) (Num 0, 0)),
             extractionFolder = k, csvKey = k, downloadUrl = url, timestamp = timestamp_of k\<rparr>"
  have k: "csvKey r = k" by (simp add: r_def)
  have 1: "results (process_file env now f run) = results run @ [r]"
    unfolding r_def by (rule process_file_reports(1) [OF h])
  have 2: "subseq (map (\<lambda>r. Some (csvKey r)) [r]) [key f]"
    using h(1) k by simp
  have 3: "\<forall>r \<in> set [r]. \<exists>csvText. downloadData env (csvKey r) = Fulfilled csvText
            \<and> 2 \<le> length (nonblank_lines csvText)"
    using h(3,4) k by simp
  from 1 2 3 show ?thesis by (rule_tac x = "[r]" in exI) (intro conjI)
next
  case False
  then have "results (process_file env now f run) = results run"
    by (rule process_file_skips)
  then show ?thesis by simp
qed

lemma process_files_results:
  "\<exists>rs. results (process_files env now fs run) = results run @ rs
     \<and> subseq (map (\<lambda>r. Some (csvKey r)) rs) (map key fs)
     \<and> (\<forall>r \<in> set rs. \<exists>csvText. downloadData env (csvKey r) = Fulfilled csvText
            \<and> 2 \<le> length (nonblank_lines csvText))"
proof (induction fs arbitrary: run)
  case Nil
  then show ?case by simp
next
  case (Cons f fs)
  obtain r1 where r1: "results (process_file env now f run) = results run @ r1"
    "subseq (map (\<lambda>r. Some (csvKey r)) r1) [key f]"
    "\<forall>r \<in> set r1. \<exists>csvText. downloadData env (csvKey r) = Fulfilled csvText
            \<and> 2 \<le> length (nonblank_lines csvText)"
    using process_file_step [of env now f run] by blast
  obtain r2 where r2: "results (process_files env now fs (process_file env now f run))
      = results (process_file env now f run) @ r2"
    "subseq (map (\<lambda>r. Some (csvKey r)) r2) (map key fs)"
    "\<forall>r \<in> set r2. \<exists>csvText. downloadData env (csvKey r) = Fulfilled csvText
            \<and> 2 \<le> length (nonblank_lines csvText)"
    using Cons.IH [of "process_file env now f run"] by blast
  have "subseq (map (\<lambda>r. Some (csvKey r)) (r1 @ r2)) ([key f] @ map key fs)"
    using r1(2) r2(2) by (simp only: map_append) (rule list_emb_append_mono)
  with r1 r2 show ?case
    by (intro exI [of _ "r1 @ r2"]) auto
qed

lemma process_file_downloads:
  "\<exists>ds. downloads (process_file env now f run) = downloads run @ ds
     \<and> subseq (map Some ds) [key f]"
proof (cases "key f")
  case None
  then show ?thesis by (simp add: process_file_def)
next
  case (Some k)
  show ?thesis
  proof (cases "k = []")
    case True
    with Some show ?thesis by (simp add: process_file_def)
  next
    case False
    have "downloads (process_file env now f run) = downloads run @ [k]"
      using Some False
      by (cases "downloadData env k"; cases "getUrl env now k")
         (simp_all add: process_file_def Let_def split_def)
    with Some show ?thesis by simp
  qed
qed

lemma process_files_downloads:
  "\<exists>ds. downloads (process_files env now fs run) = downloads run @ ds
     \<and> subseq (map Some ds) (map key fs)"
proof (induction fs arbitrary: run)
  case Nil
  then show ?case by simp
next
  case (Cons f fs)
  obtain d1 where d1: "downloads (process_file env now f run) = downloads run @ d1"
    "subseq (map Some d1) [key f]"
    using process_file_downloads [of env now f run] by blast
  obtain d2 where d2: "downloads (process_files env now fs (process_file env now f run))
      = downloads (process_file env now f run) @ d2"
    "subseq (map Some d2) (map key fs)"
    using Cons.IH [of "process_file env now f run"] by blast
  have "subseq (map Some (d1 @ d2)) ([key f] @ map key fs)"
    using d1(2) d2(2) by (simp only: map_append) (rule list_emb_append_mono)
  with d1 d2 show ?case
    by (intro exI [of _ "d1 @ d2"]) auto
qed

lemma subseq_keys_bound:
  assumes "subseq (map g rs) (map key fs)"
  shows "length rs \<le> length fs" and "\<forall>r \<in> set rs. \<exists>f \<in> set fs. key f = g r"
proof -
  from assms have "length (map g rs) \<le> length (map key fs)"
    by (rule list_emb_length)
  then show "length rs \<le> length fs" by simp
  show "\<forall>r \<in> set rs. \<exists>f \<in> set fs. key f = g r"
  proof
    fix r
    assume "r \<in> set rs"
    then have "g r \<in> set (map g rs)" by simp
    with assms obtain y where "y \<in> set (map key fs)" "g r = y"
      by (rule list_emb_set)
    then show "\<exists>f \<in> set fs. key f = g r" by auto
  qed
qed

subsection \<open>Primary results\<close>

lemma strip_Nil: "strip ws [] = []"
proof -
  have "find (\<lambda>w. w \<noteq> [] \<and> prefix w []) ws = None"
    by (simp add: find_None_iff)
  then show ?thesis
    by (subst strip.simps) simp
qed

lemma strip_Cons:
  "strip ws (c # cs) =
     (case find (\<lambda>w. w \<noteq> [] \<and> prefix w (c # cs)) ws of
        None \<Rightarrow> c # cs
      | Some w \<Rightarrow> strip ws (drop (length w) (c # cs)))"
  by (subst strip.simps) simp

lemmas eval_defs = checkForResults_def csvFiles_stable insertion_sort_def isCsvKey_def
  endsWith_def sortCompare_def newestFirst_difference time_or_epoch_def to_number_small
  process_file_def nonblank_lines_def trim_def trimStart_def trimEnd_def strip_Nil strip_Cons
  whiteSpace_def LF_def Let_def idle_def

text \<open>
  C1 (as stated) fails: a published table of only the header row is listed and
  downloaded, and the list handed to \<open>onResultsFound\<close> has no entry for it
  (\<open>if (lines.length < 2) continue\<close>), whatever the engine's sort.
\<close>

theorem header_only_table_not_reported:
  "\<forall>engine. delivered (checkForResults engine header_only_store 0 idle) = Some []
   \<and> requested (checkForResults engine header_only_store 0 idle)
       = [''public/results/bird-results-2024-01-02.csv'']"
  by (simp add: eval_defs header_only_store_def header_only_def)

text \<open>
  A line of white space only is blank whatever the white space: the table text
  \<open>itemName,count\<close>, line feed, U+00A0, line feed has one non-blank line, as has the
  text whose second line is U+FEFF, U+2028 and U+3000.
\<close>

lemma no_break_space_line_is_blank:
  "nonblank_lines (''itemName,count'' @ [LF, CHR 0xC2, CHR 0xA0, LF]) = [''itemName,count'']"
  "nonblank_lines (''itemName,count'' @ [LF] @ [CHR 0xEF, CHR 0xBB, CHR 0xBF] @ LS
      @ [CHR 0xE3, CHR 0x80, CHR 0x80]) = [''itemName,count'']"
  by (simp_all add: eval_defs LS_def)

lemma isCsvKey_iff: "isCsvKey f \<longleftrightarrow> (\<exists>k. key f = Some k \<and> endsWith k ''.csv'')"
  by (simp add: isCsvKey_def split: option.splits)

lemma isEnhancedCsv_iff:
  "isEnhancedCsv f \<longleftrightarrow>
     (\<exists>p. path f = Some p \<and> includes_str p ''enhanced_bird_results'' \<and> endsWith p ''.csv'')"
  by (simp add: isEnhancedCsv_def split: option.splits)

lemma endsWith_csv_nonempty: "endsWith k ''.csv'' \<Longrightarrow> k \<noteq> []"
  by (auto simp: endsWith_def)

lemma check_listed:
  assumes "list_prefix env = Fulfilled (Some items)" and "\<not> isChecking c"
  shows "delivered (checkForResults engine env now c)
           = Some (results (process_files env now (take 5 (csvFiles engine items))
                     \<lparr>results = [], downloads = [], errors = []\<rparr>))"
    and "requested (checkForResults engine env now c)
           = downloads (process_files env now (take 5 (csvFiles engine items))
                     \<lparr>results = [], downloads = [], errors = []\<rparr>)"
    and "logged (checkForResults engine env now c)
           = errors (process_files env now (take 5 (csvFiles engine items))
                     \<lparr>results = [], downloads = [], errors = []\<rparr>)"
  using assms by (simp_all add: checkForResults_def Let_def)

lemma check_not_listed:
  assumes "isChecking c \<or> list_prefix env = Rejected \<or> list_prefix env = Fulfilled None"
  shows "delivered (checkForResults engine env now c) = None"
    and "requested (checkForResults engine env now c) = []"
  using assms by (auto simp: checkForResults_def)

lemma check_cases:
  obtains items where "list_prefix env = Fulfilled (Some items)" "\<not> isChecking c"
  | "isChecking c \<or> list_prefix env = Rejected \<or> list_prefix env = Fulfilled None"
proof (cases "list_prefix env")
  case Rejected
  then show ?thesis using that(2) by simp
next
  case (Fulfilled l)
  then show ?thesis using that by (cases l; cases "isChecking c") auto
qed

lemma reported_in_loop:
  assumes "f \<in> set fs" and "key f = Some k" and "k \<noteq> []"
    and "downloadData env k = Fulfilled csvText" and "2 \<le> length (nonblank_lines csvText)"
    and "getUrl env now k = Fulfilled url"
  shows "\<exists>r \<in> set (results (process_files env now fs run)). csvKey r = k \<and> downloadUrl r = url"
  using assms(1)
proof (induction fs arbitrary: run)
  case Nil
  then show ?case by simp
next
  case (Cons g fs)
  show ?case
  proof (cases "f = g")
    case True
    obtain rs where rs: "results (process_files env now fs (process_file env now g run))
        = results (process_file env now g run) @ rs"
      using process_files_results [of env now fs "process_file env now g run"] by blast
    define r where "r = \<lparr>filename = show_nat (snd (count_rows (drop 1 (nonblank_lines csvText)) (Num 0, 0)))
                          @ '' images processed'',
             birdCount = fst (count_rows (drop 1 (nonblank_lines csvText)) (Num 0, 0)),
             extractionFolder = k, csvKey = k, downloadUrl = url, timestamp = timestamp_of k\<rparr>"
    have "results (process_file env now f run) = results run @ [r]"
      unfolding r_def by (rule process_file_reports(1) [OF assms(2-6)])
    with True rs have "r \<in> set (results (process_files env now (g # fs) run))"
      by simp
    moreover have "csvKey r = k \<and> downloadUrl r = url"
      by (simp add: r_def)
    ultimately show ?thesis by blast
  next
    case False
    with Cons.prems have "f \<in> set fs" by simp
    from Cons.IH [OF this, of "process_file env now g run"] show ?thesis by simp
  qed
qed

lemma delivered_in_listing_order:
  assumes "list_prefix env = Fulfilled (Some items)"
    and "delivered (checkForResults engine env now c) = Some rs"
  shows "subseq (map (\<lambda>r. Some (csvKey r)) rs) (map key (csvFiles engine items))"
proof -
  have n: "\<not> isChecking c"
    using assms(2) check_not_listed(1) [of c env engine now] by auto
  let ?fs = "take 5 (csvFiles engine items)"
  obtain rs' where rs': "results (process_files env now ?fs \<lparr>results = [], downloads = [], errors = []\<rparr>) = rs'"
    "subseq (map (\<lambda>r. Some (csvKey r)) rs') (map key ?fs)"
    using process_files_results [of env now ?fs "\<lparr>results = [], downloads = [], errors = []\<rparr>"]
    by auto
  have "rs = rs'"
    using check_listed(1) [OF assms(1) n, of engine now] assms(2) rs'(1) by simp
  moreover have "map key (csvFiles engine items) = map key ?fs @ map key (drop 5 (csvFiles engine items))"
    by (simp flip: map_append)
  ultimately show ?thesis
    using rs'(2) by (simp only: subseq_rev_drop_many)
qed

text \<open>
  C1 (as amended). A check that runs on a listing hands \<open>onResultsFound\<close> an entry
  for every table among the five most recent whose text downloads with at least two
  non-blank lines (the header and a data row; a line of white space only, of whatever
  kind, is blank) and whose URL is handed out at the time of the check; and every entry
  it hands over belongs to a table with at least two non-blank lines, so a table of only
  the header row gets none.
\<close>

theorem table_with_data_rows_is_reported:
  assumes "list_prefix env = Fulfilled (Some items)" and "\<not> isChecking c"
    and "f \<in> set (take 5 (csvFiles engine items))" and "key f = Some k"
    and "downloadData env k = Fulfilled csvText" and "2 \<le> length (nonblank_lines csvText)"
    and "getUrl env now k = Fulfilled url"
  shows "\<exists>rs. delivered (checkForResults engine env now c) = Some rs
     \<and> (\<exists>r \<in> set rs. csvKey r = k \<and> downloadUrl r = url)
     \<and> (\<forall>r \<in> set rs. \<exists>text. downloadData env (csvKey r) = Fulfilled text
            \<and> 2 \<le> length (nonblank_lines text))"
proof -
  from assms(3) have "f \<in> set (csvFiles engine items)"
    by (rule in_set_takeD)
  with assms(4) have "k \<noteq> []"
    by (auto simp: set_csvFiles isCsvKey_iff dest: endsWith_csv_nonempty)
  from reported_in_loop [OF assms(3,4) this assms(5-7)]
  have a: "\<exists>r \<in> set (results (process_files env now (take 5 (csvFiles engine items))
             \<lparr>results = [], downloads = [], errors = []\<rparr>)). csvKey r = k \<and> downloadUrl r = url" .
  from process_files_results [of env now "take 5 (csvFiles engine items)"
        "\<lparr>results = [], downloads = [], errors = []\<rparr>"]
  have b: "\<forall>r \<in> set (results (process_files env now (take 5 (csvFiles engine items))
             \<lparr>results = [], downloads = [], errors = []\<rparr>)).
           \<exists>text. downloadData env (csvKey r) = Fulfilled text \<and> 2 \<le> length (nonblank_lines text)"
    by auto
  from a b check_listed(1) [OF assms(1,2), of engine now] show ?thesis by simp
qed

theorem table_with_data_rows_is_reported_witness:
  "\<exists>rs. delivered (checkForResults listing_order two_table_store 0 idle) = Some rs
     \<and> (\<exists>r \<in> set rs. csvKey r = ''public/results/bird-results-2024-01-01.csv''
            \<and> downloadUrl r = ''https://bucket/public/results/bird-results-2024-01-01.csv'')
     \<and> (\<forall>r \<in> set rs. \<exists>text. downloadData two_table_store (csvKey r) = Fulfilled text
            \<and> 2 \<le> length (nonblank_lines text))"
proof (rule table_with_data_rows_is_reported)
  show "list_prefix two_table_store = Fulfilled (Some two_table_listing)"
    by (simp add: two_table_store_def)
  show "\<not> isChecking idle"
    by (simp add: idle_def)
  show "\<lparr>key = Some ''public/results/bird-results-2024-01-01.csv'', path = None,
          lastModified = Some 100\<rparr> \<in> set (take 5 (csvFiles listing_order two_table_listing))"
    by (simp add: eval_defs two_table_listing_def)
  show "key \<lparr>key = Some ''public/results/bird-results-2024-01-01.csv'', path = None,
          lastModified = Some 100\<rparr> = Some ''public/results/bird-results-2024-01-01.csv''"
    by simp
  show "downloadData two_table_store ''public/results/bird-results-2024-01-01.csv''
      = Fulfilled two_rows"
    by (simp add: two_table_store_def)
  show "2 \<le> length (nonblank_lines two_rows)"
    by (simp add: eval_defs two_rows_def)
  show "getUrl two_table_store 0 ''public/results/bird-results-2024-01-01.csv''
      = Fulfilled ''https://bucket/public/results/bird-results-2024-01-01.csv''"
    by (simp add: two_table_store_def)
qed

subsection \<open>What discovery returns\<close>

lemma shown_loaded:
  assumes "list_path env = Fulfilled (Some items)"
  shows "shown (loadCSVFiles engine env now v)
           = js_sort engine newestFirst_asserted
               (map (withUrl env now) (filter isEnhancedCsv items))"
    and "load_error (loadCSVFiles engine env now v) = None"
    and "loading (loadCSVFiles engine env now v) = False"
  using assms by (simp_all add: loadCSVFiles_def Let_def)

lemma withUrl_fields:
  "path (withUrl env now csv) = path csv" "lastModified (withUrl env now csv) = lastModified csv"
  by (simp_all add: withUrl_def)

lemma shown_dated:
  assumes "list_path env = Fulfilled (Some items)"
    and "\<forall>item \<in> set items. isEnhancedCsv item \<longrightarrow> lastModified item \<noteq> None"
  shows "shown (loadCSVFiles engine env now v)
           = insertion_sort newestFirst_asserted
               (map (withUrl env now) (filter isEnhancedCsv items))"
proof -
  have "\<forall>f \<in> set (map (withUrl env now) (filter isEnhancedCsv items)). lastModified f \<noteq> None"
    using assms(2) by (auto simp: withUrl_fields)
  then have "consistent newestFirst_asserted (map (withUrl env now) (filter isEnhancedCsv items))"
    by (rule consistent_newestFirst_asserted)
  then show ?thesis
    by (simp add: shown_loaded(1) [OF assms(1)] js_sort_def)
qed

text \<open>
  What the two listings do give. The primary listing keeps only listed entries whose key
  ends with \<open>.csv\<close>, newest first, an entry without \<open>lastModified\<close> ranking as
  the epoch, and the entries handed to \<open>onResultsFound\<close> follow that order. When
  every enhanced entry of the listing has a \<open>lastModified\<close>, the viewer shows only
  entries whose path contains \<open>enhanced_bird_results\<close> and ends with \<open>.csv\<close>,
  newest first.
\<close>

theorem discovery_filtered_newest_first:
  "(\<forall>f \<in> set (csvFiles engine items).
       f \<in> set items \<and> (\<exists>k. key f = Some k \<and> endsWith k ''.csv''))
   \<and> sorted_wrt (\<lambda>a b. time_or_epoch b \<le> time_or_epoch a) (csvFiles engine items)
   \<and> (list_prefix env = Fulfilled (Some items) \<longrightarrow>
        (\<forall>rs. delivered (checkForResults engine env now c) = Some rs \<longrightarrow>
              subseq (map (\<lambda>r. Some (csvKey r)) rs) (map key (csvFiles engine items))))
   \<and> (list_path env = Fulfilled (Some items')
        \<and> (\<forall>item \<in> set items'. isEnhancedCsv item \<longrightarrow> lastModified item \<noteq> None) \<longrightarrow>
        (\<forall>f \<in> set (shown (loadCSVFiles engine' env now v)).
            \<exists>p. path f = Some p \<and> includes_str p ''enhanced_bird_results'' \<and> endsWith p ''.csv'')
        \<and> sorted_wrt (\<lambda>a b. time_or_epoch b \<le> time_or_epoch a)
             (shown (loadCSVFiles engine' env now v)))"
proof -
  have a: "\<forall>f \<in> set (csvFiles engine items).
       f \<in> set items \<and> (\<exists>k. key f = Some k \<and> endsWith k ''.csv'')"
    by (simp add: set_csvFiles isCsvKey_iff)
  have b: "\<forall>f \<in> set (shown (loadCSVFiles engine' env now v)).
            \<exists>p. path f = Some p \<and> includes_str p ''enhanced_bird_results'' \<and> endsWith p ''.csv''"
    if l: "list_path env = Fulfilled (Some items')"
      and d: "\<forall>item \<in> set items'. isEnhancedCsv item \<longrightarrow> lastModified item \<noteq> None"
    using isEnhancedCsv_iff
    by (auto simp: shown_dated [OF l d] set_insertion_sort withUrl_fields)
  have c: "sorted_wrt (\<lambda>a b. time_or_epoch b \<le> time_or_epoch a)
             (shown (loadCSVFiles engine' env now v))"
    if l: "list_path env = Fulfilled (Some items')"
      and d: "\<forall>item \<in> set items'. isEnhancedCsv item \<longrightarrow> lastModified item \<noteq> None"
    unfolding shown_dated [OF l d]
  proof (rule sorted_insertion_sort)
    fix x y
    assume "x \<in> set (map (withUrl env now) (filter isEnhancedCsv items'))"
      and "y \<in> set (map (withUrl env now) (filter isEnhancedCsv items'))"
    with d have "lastModified x \<noteq> None" "lastModified y \<noteq> None"
      by (auto simp: withUrl_fields)
    then have "newestFirst_asserted x y = to_number (time_or_epoch y - time_or_epoch x)"
      by (rule newestFirst_asserted_difference)
    then show "positive (sortCompare newestFirst_asserted x y) = (time_or_epoch x < time_or_epoch y)"
      by (rule positive_sortCompare_difference)
  qed
  have d: "subseq (map (\<lambda>r. Some (csvKey r)) rs) (map key (csvFiles engine items))"
    if "list_prefix env = Fulfilled (Some items)"
      "delivered (checkForResults engine env now c) = Some rs"
    for rs
    using that by (rule delivered_in_listing_order)
  from a b c d csvFiles_sorted [of engine items] show ?thesis by blast
qed

theorem discovery_filtered_newest_first_witness:
  "map key (csvFiles listing_order two_table_listing)
     = [Some ''public/results/bird-results-2024-01-02.csv'',
        Some ''public/results/bird-results-2024-01-01.csv'']
   \<and> sorted_wrt (\<lambda>a b. time_or_epoch b \<le> time_or_epoch a)
        (shown (loadCSVFiles listing_order two_table_store 0 blank_viewer))
   \<and> map path (shown (loadCSVFiles listing_order two_table_store 0 blank_viewer))
     = [Some ''public/results/enhanced_bird_results_2.csv'',
        Some ''public/results/enhanced_bird_results_1.csv'']"
proof -
  have l: "list_path two_table_store = Fulfilled (Some enhanced_listing)"
    by (simp add: two_table_store_def)
  have d: "\<forall>item \<in> set enhanced_listing. isEnhancedCsv item \<longrightarrow> lastModified item \<noteq> None"
    by (simp add: enhanced_listing_def)
  from discovery_filtered_newest_first
         [where env = two_table_store and items' = enhanced_listing and v = blank_viewer
            and engine' = listing_order and now = 0] l d
  have "sorted_wrt (\<lambda>a b. time_or_epoch b \<le> time_or_epoch a)
          (shown (loadCSVFiles listing_order two_table_store 0 blank_viewer))"
    by blast
  moreover have "map key (csvFiles listing_order two_table_listing)
     = [Some ''public/results/bird-results-2024-01-02.csv'',
        Some ''public/results/bird-results-2024-01-01.csv'']"
    by (simp add: eval_defs two_table_listing_def)
  moreover have "map path (shown (loadCSVFiles listing_order two_table_store 0 blank_viewer))
     = [Some ''public/results/enhanced_bird_results_2.csv'',
        Some ''public/results/enhanced_bird_results_1.csv'']"
    unfolding shown_dated [OF l d]
    by (simp add: enhanced_listing_def isEnhancedCsv_def endsWith_def insertion_sort_def
        sortCompare_def newestFirst_asserted_def getTime_def to_number_small withUrl_def)
  ultimately show ?thesis by blast
qed

text \<open>
  C2. The claim fails on the enhanced listing, where the code departs from what it sets
  out to do (\<open>// Sort by last modified (newest first)\<close>, with a non-null assertion on
  \<open>lastModified\<close>). On a listing of an enhanced table without \<open>lastModified\<close>
  followed by a dated one, the viewer's comparator returns \<open>NaN\<close> in both directions,
  where the comparator of the primary listing ranks the dateless entry as the epoch and
  returns 10. The comparator is then no consistent comparison function, so the order of
  what the viewer shows is whatever the engine makes of it; an engine that takes
  \<open>NaN\<close> as a tie and keeps ties in place shows the dateless entry first, before the
  more recent dated one.
\<close>

theorem dateless_enhanced_table_compares_as_NaN:
  "newestFirst_asserted (withUrl dateless_store 0 dateless) (withUrl dateless_store 0 dated) = NaN
   \<and> newestFirst_asserted (withUrl dateless_store 0 dated) (withUrl dateless_store 0 dateless) = NaN
   \<and> newestFirst dateless dated = Num 10
   \<and> (\<forall>engine. shown (loadCSVFiles engine dateless_store 0 blank_viewer)
         = engine newestFirst_asserted
             [withUrl dateless_store 0 dateless, withUrl dateless_store 0 dated])
   \<and> map lastModified (shown (loadCSVFiles listing_order dateless_store 0 blank_viewer))
       = [None, Some 10]
   \<and> \<not> sorted_wrt (\<lambda>a b. time_or_epoch b \<le> time_or_epoch a)
         (shown (loadCSVFiles listing_order dateless_store 0 blank_viewer))"
proof -
  have n: "newestFirst_asserted (withUrl dateless_store 0 dateless) (withUrl dateless_store 0 dated)
      = NaN"
    "newestFirst_asserted (withUrl dateless_store 0 dated) (withUrl dateless_store 0 dateless)
      = NaN"
    by (simp_all add: newestFirst_asserted_def getTime_def withUrl_def dateless_def dated_def)
  have p: "newestFirst dateless dated = Num 10"
    by (simp add: newestFirst_difference time_or_epoch_def to_number_small dateless_def dated_def)
  have "\<not> consistent newestFirst_asserted
          [withUrl dateless_store 0 dateless, withUrl dateless_store 0 dated]"
    using n(1) by (simp add: consistent_def)
  moreover have "filter isEnhancedCsv [dateless, dated] = [dateless, dated]"
    by (simp add: isEnhancedCsv_def dateless_def dated_def endsWith_def)
  ultimately have s: "shown (loadCSVFiles engine dateless_store 0 blank_viewer)
         = engine newestFirst_asserted
             [withUrl dateless_store 0 dateless, withUrl dateless_store 0 dated]" for engine
    by (simp add: loadCSVFiles_def dateless_store_def js_sort_def)
  have l: "map lastModified (shown (loadCSVFiles listing_order dateless_store 0 blank_viewer))
       = [None, Some 10]"
    by (simp add: s listing_order_def withUrl_fields dateless_def dated_def)
  have "\<not> sorted_wrt (\<lambda>a b. time_or_epoch b \<le> time_or_epoch a)
         (shown (loadCSVFiles listing_order dateless_store 0 blank_viewer))"
    by (simp add: s listing_order_def withUrl_fields time_or_epoch_def dateless_def dated_def)
  with n p s l show ?thesis by blast
qed

lemma after_not_checking:
  "\<not> isChecking c \<Longrightarrow> \<not> isChecking (after (checkForResults engine env now c))"
  by (simp add: checkForResults_def Let_def split: outcome.splits option.splits)

lemma after_when_checking:
  "isChecking c \<Longrightarrow> after (checkForResults engine env now c) = c"
  by (simp add: checkForResults_def)

lemma isChecking_after:
  "isChecking (after (checkForResults engine env now c)) = isChecking c"
  using after_not_checking [of c engine env now] after_when_checking [of c engine env now]
  by (cases "isChecking c") simp_all

lemma check_not_listed_same:
  assumes "isChecking c \<or> list_prefix env = Rejected \<or> list_prefix env = Fulfilled None"
    and "isChecking c' = isChecking c"
  shows "delivered (checkForResults engine env t2 c') = delivered (checkForResults engine env t1 c)"
    and "requested (checkForResults engine env t2 c') = requested (checkForResults engine env t1 c)"
    and "logged (checkForResults engine env t2 c') = logged (checkForResults engine env t1 c)"
  using assms by (auto simp: checkForResults_def)

lemma process_file_same_but_urls:
  assumes "\<And>k. (getUrl env t1 k = Rejected) = (getUrl env t2 k = Rejected)"
    and "map (\<lambda>r. r\<lparr>downloadUrl := []\<rparr>) (results run2)
           = map (\<lambda>r. r\<lparr>downloadUrl := []\<rparr>) (results run1)"
    and "downloads run2 = downloads run1" and "errors run2 = errors run1"
  shows "map (\<lambda>r. r\<lparr>downloadUrl := []\<rparr>) (results (process_file env t2 f run2))
           = map (\<lambda>r. r\<lparr>downloadUrl := []\<rparr>) (results (process_file env t1 f run1))"
    and "downloads (process_file env t2 f run2) = downloads (process_file env t1 f run1)"
    and "errors (process_file env t2 f run2) = errors (process_file env t1 f run1)"
proof -
  let ?same = "\<lambda>a b. map (\<lambda>r. r\<lparr>downloadUrl := []\<rparr>) (results a)
                         = map (\<lambda>r. r\<lparr>downloadUrl := []\<rparr>) (results b)
                     \<and> downloads a = downloads b \<and> errors a = errors b"
  have "?same (process_file env t2 f run2) (process_file env t1 f run1)"
  proof (cases "key f")
    case None
    with assms(2-4) show ?thesis by (simp add: process_file_def)
  next
    case (Some k)
    show ?thesis
    proof (cases "k = []")
      case True
      with Some assms(2-4) show ?thesis by (simp add: process_file_def)
    next
      case False
      show ?thesis
      proof (cases "downloadData env k")
        case Rejected
        with Some False assms(2-4) show ?thesis by (simp add: process_file_def Let_def)
      next
        case (Fulfilled csvText)
        show ?thesis
        proof (cases "length (nonblank_lines csvText) < 2")
          case True
          with Some False Fulfilled assms(2-4) show ?thesis
            by (simp add: process_file_def Let_def)
        next
          case long: False
          show ?thesis
          proof (cases "getUrl env t1 k")
            case Rejected
            with assms(1) [of k] have "getUrl env t2 k = Rejected" by simp
            with Rejected Some False Fulfilled long assms(2-4) show ?thesis
              by (simp add: process_file_def Let_def split_def)
          next
            case u1: (Fulfilled url1)
            with assms(1) [of k] obtain url2 where u2: "getUrl env t2 k = Fulfilled url2"
              by (cases "getUrl env t2 k") simp_all
            from u1 u2 Some False Fulfilled long assms(2-4) show ?thesis
              by (simp add: process_file_def Let_def split_def)
          qed
        qed
      qed
    qed
  qed
  then show "map (\<lambda>r. r\<lparr>downloadUrl := []\<rparr>) (results (process_file env t2 f run2))
           = map (\<lambda>r. r\<lparr>downloadUrl := []\<rparr>) (results (process_file env t1 f run1))"
    and "downloads (process_file env t2 f run2) = downloads (process_file env t1 f run1)"
    and "errors (process_file env t2 f run2) = errors (process_file env t1 f run1)"
    by simp_all
qed

lemma process_files_same_but_urls:
  assumes "\<And>k. (getUrl env t1 k = Rejected) = (getUrl env t2 k = Rejected)"
    and "map (\<lambda>r. r\<lparr>downloadUrl := []\<rparr>) (results run2)
           = map (\<lambda>r. r\<lparr>downloadUrl := []\<rparr>) (results run1)"
    and "downloads run2 = downloads run1" and "errors run2 = errors run1"
  shows "map (\<lambda>r. r\<lparr>downloadUrl := []\<rparr>) (results (process_files env t2 fs run2))
           = map (\<lambda>r. r\<lparr>downloadUrl := []\<rparr>) (results (process_files env t1 fs run1))
         \<and> downloads (process_files env t2 fs run2) = downloads (process_files env t1 fs run1)
         \<and> errors (process_files env t2 fs run2) = errors (process_files env t1 fs run1)"
  using assms(2-4)
proof (induction fs arbitrary: run1 run2)
  case Nil
  then show ?case by simp
next
  case (Cons f fs)
  from process_file_same_but_urls [OF assms(1) Cons.prems, of f]
  have "map (\<lambda>r. r\<lparr>downloadUrl := []\<rparr>) (results (process_file env t2 f run2))
           = map (\<lambda>r. r\<lparr>downloadUrl := []\<rparr>) (results (process_file env t1 f run1))"
    "downloads (process_file env t2 f run2) = downloads (process_file env t1 f run1)"
    "errors (process_file env t2 f run2) = errors (process_file env t1 f run1)"
    by simp_all
  from Cons.IH [OF this] show ?case by simp
qed

lemma process_files_same_urls:
  "getUrl env t2 = getUrl env t1 \<Longrightarrow> process_files env t2 fs run = process_files env t1 fs run"
proof (induction fs arbitrary: run)
  case Nil
  then show ?case by simp
next
  case (Cons f fs)
  have "process_file env t2 f run = process_file env t1 f run"
    unfolding process_file_def Cons.prems by (rule refl)
  with Cons show ?case by simp
qed

lemma process_file_url:
  assumes "\<forall>r \<in> set (results run). getUrl env now (csvKey r) = Fulfilled (downloadUrl r)"
  shows "\<forall>r \<in> set (results (process_file env now f run)).
           getUrl env now (csvKey r) = Fulfilled (downloadUrl r)"
proof (cases "\<exists>k csvText url. key f = Some k \<and> k \<noteq> [] \<and> downloadData env k = Fulfilled csvText
          \<and> 2 \<le> length (nonblank_lines csvText) \<and> getUrl env now k = Fulfilled url")
  case True
  then obtain k csvText url where h: "key f = Some k" "k \<noteq> []"
    "downloadData env k = Fulfilled csvText" "2 \<le> length (nonblank_lines csvText)"
    "getUrl env now k = Fulfilled url"
    by blast
  define r where "r = \<lparr>filename = show_nat (snd (count_rows (drop 1 (nonblank_lines csvText)) (Num 0, 0)))
                          @ '' images processed'',
             birdCount = fst (count_rows (drop 1 (nonblank_lines csvText)) (Num 0, 0)),
             extractionFolder = k, csvKey = k, downloadUrl = url, timestamp = timestamp_of k\<rparr>"
  have k: "csvKey r = k" "downloadUrl r = url" by (simp_all add: r_def)
  have "results (process_file env now f run) = results run @ [r]"
    unfolding r_def by (rule process_file_reports(1) [OF h])
  with assms h(5) k show ?thesis by simp
next
  case False
  then have "results (process_file env now f run) = results run"
    by (rule process_file_skips)
  with assms show ?thesis by simp
qed

lemma process_files_url:
  assumes "\<forall>r \<in> set (results run). getUrl env now (csvKey r) = Fulfilled (downloadUrl r)"
  shows "\<forall>r \<in> set (results (process_files env now fs run)).
           getUrl env now (csvKey r) = Fulfilled (downloadUrl r)"
  using assms
proof (induction fs arbitrary: run)
  case Nil
  then show ?case by simp
next
  case (Cons f fs)
  from Cons.IH [OF process_file_url [OF Cons.prems, of f]] show ?case by simp
qed

text \<open>
  C3 (as stated) fails: the retrieval handle of an entry is the URL that \<open>getUrl\<close>
  signs at the time of the check (\<open>expiresIn: 3600\<close>), so on one state of storage two
  checks at different times hand over entries that differ in \<open>downloadUrl\<close>. On a
  store whose URLs carry the time of signing, the check at time 9 differs from the check
  at time 7 in the one entry both hand over.
\<close>

theorem signed_urls_differ_between_checks:
  "\<forall>engine.
     delivered (checkForResults engine signing_store 9
         (after (checkForResults engine signing_store 7 idle)))
       \<noteq> delivered (checkForResults engine signing_store 7 idle)
     \<and> map_option (map downloadUrl) (delivered (checkForResults engine signing_store 7 idle))
       = Some [''https://bucket/public/results/bird-results-2024-01-01.csv?X-Amz-Date=7'']
     \<and> map_option (map downloadUrl) (delivered (checkForResults engine signing_store 9
         (after (checkForResults engine signing_store 7 idle))))
       = Some [''https://bucket/public/results/bird-results-2024-01-01.csv?X-Amz-Date=9'']"
proof
  fix engine :: "(ListOutputItem \<Rightarrow> ListOutputItem \<Rightarrow> number) \<Rightarrow> ListOutputItem list \<Rightarrow> ListOutputItem list"
  have i: "\<not> isChecking (after (checkForResults engine signing_store 7 idle))"
    by (simp add: isChecking_after idle_def)
  have l: "list_prefix signing_store = Fulfilled (Some two_table_listing)"
    by (simp add: signing_store_def)
  have u: "map_option (map downloadUrl) (delivered (checkForResults engine signing_store t c))
       = Some [''https://bucket/public/results/bird-results-2024-01-01.csv?X-Amz-Date=''
                 @ show_nat (nat t)]"
    if "\<not> isChecking c" for t c
    unfolding check_listed(1) [OF l that]
    by (simp add: eval_defs signing_store_def two_table_listing_def header_only_def
        two_rows_def split_def)
  have 7: "show_nat (nat 7) = ''7''" and 9: "show_nat (nat 9) = ''9''"
    by (simp_all add: show_nat.simps digits_def)
  have a: "map_option (map downloadUrl) (delivered (checkForResults engine signing_store 7 idle))
       = Some [''https://bucket/public/results/bird-results-2024-01-01.csv?X-Amz-Date=7'']"
    using u [of idle 7] 7 by (simp add: idle_def)
  have b: "map_option (map downloadUrl) (delivered (checkForResults engine signing_store 9
         (after (checkForResults engine signing_store 7 idle))))
       = Some [''https://bucket/public/results/bird-results-2024-01-01.csv?X-Amz-Date=9'']"
    using u [OF i, of 9] 9 by simp
  have "delivered (checkForResults engine signing_store 9
         (after (checkForResults engine signing_store 7 idle)))
       \<noteq> delivered (checkForResults engine signing_store 7 idle)"
  proof
    assume "delivered (checkForResults engine signing_store 9
         (after (checkForResults engine signing_store 7 idle)))
       = delivered (checkForResults engine signing_store 7 idle)"
    then have "map_option (map downloadUrl) (delivered (checkForResults engine signing_store 9
         (after (checkForResults engine signing_store 7 idle))))
       = map_option (map downloadUrl) (delivered (checkForResults engine signing_store 7 idle))"
      by simp
    then have "Some [''https://bucket/public/results/bird-results-2024-01-01.csv?X-Amz-Date=9'']
        = Some [''https://bucket/public/results/bird-results-2024-01-01.csv?X-Amz-Date=7'']"
      unfolding a b .
    then show False by simp
  qed
  with a b show "delivered (checkForResults engine signing_store 9
         (after (checkForResults engine signing_store 7 idle)))
       \<noteq> delivered (checkForResults engine signing_store 7 idle)
     \<and> map_option (map downloadUrl) (delivered (checkForResults engine signing_store 7 idle))
       = Some [''https://bucket/public/results/bird-results-2024-01-01.csv?X-Amz-Date=7'']
     \<and> map_option (map downloadUrl) (delivered (checkForResults engine signing_store 9
         (after (checkForResults engine signing_store 7 idle))))
       = Some [''https://bucket/public/results/bird-results-2024-01-01.csv?X-Amz-Date=9'']"
    by blast
qed

text \<open>
  C3 (as amended). On one state of storage on which \<open>getUrl\<close> answers for the same
  keys at both times, a second check, started from the state the first check left,
  hands \<open>onResultsFound\<close> the same entries in the same order with the same fields
  apart from \<open>downloadUrl\<close> (or nothing when the first handed over nothing), asks
  for the same downloads and logs the same errors. The \<open>downloadUrl\<close> of each entry
  is the URL \<open>getUrl\<close> hands out for the entry's key at the time of that check, so
  where \<open>getUrl\<close> hands out the same URLs at both times the two checks hand over
  the same.
\<close>

theorem second_check_same_but_urls:
  assumes "\<forall>k. (getUrl env t1 k = Rejected) = (getUrl env t2 k = Rejected)"
  shows "map_option (map (\<lambda>r. r\<lparr>downloadUrl := []\<rparr>))
           (delivered (checkForResults engine env t2 (after (checkForResults engine env t1 c))))
         = map_option (map (\<lambda>r. r\<lparr>downloadUrl := []\<rparr>))
             (delivered (checkForResults engine env t1 c))
     \<and> requested (checkForResults engine env t2 (after (checkForResults engine env t1 c)))
         = requested (checkForResults engine env t1 c)
     \<and> logged (checkForResults engine env t2 (after (checkForResults engine env t1 c)))
         = logged (checkForResults engine env t1 c)
     \<and> (\<forall>rs. delivered (checkForResults engine env t2 (after (checkForResults engine env t1 c)))
                = Some rs \<longrightarrow>
              (\<forall>r \<in> set rs. getUrl env t2 (csvKey r) = Fulfilled (downloadUrl r)))
     \<and> (\<forall>rs. delivered (checkForResults engine env t1 c) = Some rs \<longrightarrow>
              (\<forall>r \<in> set rs. getUrl env t1 (csvKey r) = Fulfilled (downloadUrl r)))
     \<and> (getUrl env t2 = getUrl env t1 \<longrightarrow>
          delivered (checkForResults engine env t2 (after (checkForResults engine env t1 c)))
            = delivered (checkForResults engine env t1 c))"
proof -
  let ?c' = "after (checkForResults engine env t1 c)"
  let ?init = "\<lparr>results = [], downloads = [], errors = []\<rparr>"
  have f: "isChecking ?c' = isChecking c"
    by (rule isChecking_after)
  have url: "\<forall>r \<in> set rs. getUrl env t (csvKey r) = Fulfilled (downloadUrl r)"
    if "delivered (checkForResults engine env t d) = Some rs" for t d rs
  proof (cases rule: check_cases [of env d])
    case (1 items)
    have "\<forall>r \<in> set (results (process_files env t (take 5 (csvFiles engine items)) ?init)).
            getUrl env t (csvKey r) = Fulfilled (downloadUrl r)"
      by (rule process_files_url) simp
    with that check_listed(1) [OF 1, of engine t] show ?thesis by simp
  next
    case 2
    from check_not_listed(1) [OF 2, of engine t] that show ?thesis by simp
  qed
  show ?thesis
  proof (cases rule: check_cases [of env c])
    case (1 items)
    from 1(2) f have n: "\<not> isChecking ?c'" by simp
    let ?fs = "take 5 (csvFiles engine items)"
    have s: "map (\<lambda>r. r\<lparr>downloadUrl := []\<rparr>) (results (process_files env t2 ?fs ?init))
               = map (\<lambda>r. r\<lparr>downloadUrl := []\<rparr>) (results (process_files env t1 ?fs ?init))
             \<and> downloads (process_files env t2 ?fs ?init) = downloads (process_files env t1 ?fs ?init)
             \<and> errors (process_files env t2 ?fs ?init) = errors (process_files env t1 ?fs ?init)"
      by (rule process_files_same_but_urls) (simp_all add: assms)
    have e: "process_files env t2 ?fs ?init = process_files env t1 ?fs ?init"
      if "getUrl env t2 = getUrl env t1"
      using that by (rule process_files_same_urls)
    from s e url check_listed [OF 1, of engine t1] check_listed [OF 1(1) n, of engine t2]
    show ?thesis by simp
  next
    case 2
    from 2 f have again: "isChecking ?c' \<or> list_prefix env = Rejected \<or> list_prefix env = Fulfilled None"
      by simp
    have "delivered (checkForResults engine env t2 ?c') = None"
      "delivered (checkForResults engine env t1 c) = None"
      "requested (checkForResults engine env t2 ?c') = []"
      "requested (checkForResults engine env t1 c) = []"
      by (rule check_not_listed [OF again] check_not_listed [OF 2])+
    with check_not_listed_same(3) [OF 2 f, of engine t2 t1] show ?thesis by simp
  qed
qed

theorem second_check_same_but_urls_witness:
  "map_option (map (\<lambda>r. r\<lparr>downloadUrl := []\<rparr>))
       (delivered (checkForResults listing_order signing_store 9
          (after (checkForResults listing_order signing_store 7 idle))))
     = map_option (map (\<lambda>r. r\<lparr>downloadUrl := []\<rparr>))
         (delivered (checkForResults listing_order signing_store 7 idle))
   \<and> requested (checkForResults listing_order signing_store 9
          (after (checkForResults listing_order signing_store 7 idle)))
     = requested (checkForResults listing_order signing_store 7 idle)
   \<and> (\<exists>rs. delivered (checkForResults listing_order signing_store 7 idle) = Some rs
         \<and> map csvKey rs = [''public/results/bird-results-2024-01-01.csv''])"
proof -
  have "\<exists>rs. delivered (checkForResults listing_order signing_store 7 idle) = Some rs
         \<and> map csvKey rs = [''public/results/bird-results-2024-01-01.csv'']"
    by (simp add: eval_defs signing_store_def two_table_listing_def header_only_def
        two_rows_def split_def)
  moreover have "\<forall>k. (getUrl signing_store 7 k = Rejected) = (getUrl signing_store 9 k = Rejected)"
    by (simp add: signing_store_def)
  ultimately show ?thesis
    using second_check_same_but_urls [of signing_store 7 9 listing_order idle] by blast
qed

text \<open>
  C7. When the listing succeeds and none of its entries matches, a check that runs hands
  \<open>onResultsFound\<close> the empty list, asks for no download and logs no error; and
  the viewer of enhanced tables shows the empty list with no error set.
\<close>

theorem empty_namespace_empty_result:
  "(list_prefix env = Fulfilled (Some items) \<and> \<not> isChecking c
      \<and> (\<forall>item \<in> set items. \<not> isCsvKey item)
      \<longrightarrow> delivered (checkForResults engine env now c) = Some []
          \<and> logged (checkForResults engine env now c) = []
          \<and> requested (checkForResults engine env now c) = [])
   \<and> (list_path env = Fulfilled (Some items') \<and> (\<forall>item \<in> set items'. \<not> isEnhancedCsv item)
      \<longrightarrow> shown (loadCSVFiles engine' env now' v) = []
          \<and> load_error (loadCSVFiles engine' env now' v) = None)"
proof -
  have a: "csvFiles engine items = []" if "\<forall>item \<in> set items. \<not> isCsvKey item"
  proof -
    from that have "filter isCsvKey items = []" by (simp add: filter_empty_conv)
    then show ?thesis by (simp add: csvFiles_stable insertion_sort_def)
  qed
  have b: "filter isEnhancedCsv items' = []" if "\<forall>item \<in> set items'. \<not> isEnhancedCsv item"
    using that by (simp add: filter_empty_conv)
  have c: "js_sort engine' newestFirst_asserted [] = []"
    by (simp add: js_sort_def consistent_def insertion_sort_def)
  show ?thesis
    using a b c by (auto simp: checkForResults_def loadCSVFiles_def Let_def)
qed

theorem empty_namespace_empty_result_witness:
  "delivered (checkForResults listing_order empty_store 0 idle) = Some []
   \<and> logged (checkForResults listing_order empty_store 0 idle) = []
   \<and> shown (loadCSVFiles listing_order empty_store 0 blank_viewer) = []
   \<and> load_error (loadCSVFiles listing_order empty_store 0 blank_viewer) = None"
proof -
  have 1: "list_prefix empty_store = Fulfilled (Some [])" "list_path empty_store = Fulfilled (Some [])"
    by (simp_all add: empty_store_def)
  have 2: "\<not> isChecking idle" by (simp add: idle_def)
  from empty_namespace_empty_result
         [where env = empty_store and items = "[]" and c = idle and now = 0 and items' = "[]"
            and v = blank_viewer and engine = listing_order and engine' = listing_order
            and now' = 0] 1 2
  show ?thesis by simp
qed

text \<open>
  C9. A check asks for at most five downloads and hands over at most five entries; on a
  listing, every download and every entry is for one of the first five of the CSV files
  in newest-first order, and none of the files left out is more recent than any of
  those five.
\<close>

theorem at_most_five_most_recent:
  "length (requested (checkForResults engine env now c)) \<le> 5
   \<and> (\<forall>rs. delivered (checkForResults engine env now c) = Some rs \<longrightarrow> length rs \<le> 5)
   \<and> (list_prefix env = Fulfilled (Some items) \<longrightarrow>
        (\<forall>k \<in> set (requested (checkForResults engine env now c)).
            \<exists>f \<in> set (take 5 (csvFiles engine items)). key f = Some k)
      \<and> (\<forall>rs. delivered (checkForResults engine env now c) = Some rs \<longrightarrow>
            (\<forall>r \<in> set rs. \<exists>f \<in> set (take 5 (csvFiles engine items)). key f = Some (csvKey r)))
      \<and> (\<forall>f \<in> set (take 5 (csvFiles engine items)). \<forall>g \<in> set (drop 5 (csvFiles engine items)).
            time_or_epoch g \<le> time_or_epoch f))"
proof -
  have recent: "\<forall>f \<in> set (take 5 (csvFiles engine items)).
      \<forall>g \<in> set (drop 5 (csvFiles engine items)). time_or_epoch g \<le> time_or_epoch f" for items
  proof -
    have "sorted_wrt (\<lambda>a b. time_or_epoch b \<le> time_or_epoch a)
            (take 5 (csvFiles engine items) @ drop 5 (csvFiles engine items))"
      using csvFiles_sorted [of engine items] by simp
    then show ?thesis
      unfolding sorted_wrt_append by blast
  qed
  show ?thesis
  proof (cases rule: check_cases [of env c])
    case (1 its)
    let ?fs = "take 5 (csvFiles engine its)"
    let ?run = "process_files env now ?fs \<lparr>results = [], downloads = [], errors = []\<rparr>"
    obtain rs where rs: "results ?run = rs" "subseq (map (\<lambda>r. Some (csvKey r)) rs) (map key ?fs)"
      using process_files_results [of env now ?fs "\<lparr>results = [], downloads = [], errors = []\<rparr>"]
      by auto
    obtain ds where ds: "downloads ?run = ds" "subseq (map Some ds) (map key ?fs)"
      using process_files_downloads [of env now ?fs "\<lparr>results = [], downloads = [], errors = []\<rparr>"]
      by auto
    have d: "delivered (checkForResults engine env now c) = Some rs"
      "requested (checkForResults engine env now c) = ds"
      using check_listed(1,2) [OF 1, of engine now] rs(1) ds(1) by simp_all
    have "length ?fs \<le> 5" by simp
    with subseq_keys_bound(1) [OF rs(2)] subseq_keys_bound(1) [OF ds(2)]
    have len: "length rs \<le> 5" "length ds \<le> 5" by simp_all
    have mem: "\<forall>r \<in> set rs. \<exists>f \<in> set ?fs. key f = Some (csvKey r)"
      "\<forall>k \<in> set ds. \<exists>f \<in> set ?fs. key f = Some k"
      using subseq_keys_bound(2) [OF rs(2)] subseq_keys_bound(2) [OF ds(2)] by simp_all
    have same: "items = its" if "list_prefix env = Fulfilled (Some items)"
      using that 1(1) by simp
    from d len mem same recent [of items] show ?thesis by auto
  next
    case 2
    from check_not_listed [OF 2, of engine now] recent [of items] show ?thesis by simp
  qed
qed

theorem at_most_five_most_recent_witness:
  "length (requested (checkForResults listing_order seven_table_store 0 idle)) \<le> 5
   \<and> requested (checkForResults listing_order seven_table_store 0 idle)
       = [''public/results/t7.csv'', ''public/results/t6.csv'', ''public/results/t5.csv'',
          ''public/results/t4.csv'', ''public/results/t3.csv'']
   \<and> (\<exists>rs. delivered (checkForResults listing_order seven_table_store 0 idle) = Some rs
         \<and> length rs = 5)"
proof -
  have "requested (checkForResults listing_order seven_table_store 0 idle)
       = [''public/results/t7.csv'', ''public/results/t6.csv'', ''public/results/t5.csv'',
          ''public/results/t4.csv'', ''public/results/t3.csv'']"
    by (simp add: eval_defs seven_table_store_def seven_table_listing_def two_rows_def split_def)
  moreover have "\<exists>rs. delivered (checkForResults listing_order seven_table_store 0 idle) = Some rs
      \<and> length rs = 5"
    by (simp add: eval_defs seven_table_store_def seven_table_listing_def two_rows_def split_def)
  ultimately show ?thesis
    using at_most_five_most_recent
            [of listing_order seven_table_store 0 idle seven_table_listing] by blast
qed

subsection \<open>Table text\<close>

lemma split_on_field:
  "sep \<notin> set l \<Longrightarrow> split_on sep (l @ sep # rest) = l # split_on sep rest"
  by (induction l) auto

lemma split_on_single: "sep \<notin> set l \<Longrightarrow> split_on sep l = [l]"
  by (induction l) auto

lemma split_on_lines:
  "\<forall>l \<in> set ls. LF \<notin> set l \<Longrightarrow> split_on LF (concat (map (\<lambda>line. line @ [LF]) ls)) = ls @ [[]]"
  by (induction ls) (simp_all add: split_on_field)

lemma strip_keeps:
  assumes "c \<in> set s" and "\<forall>w \<in> set ws. c \<notin> set w"
  shows "c \<in> set (strip ws s)"
  using assms
proof (induction ws s rule: strip.induct)
  case (1 ws s)
  show ?case
  proof (cases "find (\<lambda>w. w \<noteq> [] \<and> prefix w s) ws")
    case None
    then show ?thesis using 1(2) by (subst strip.simps) simp
  next
    case (Some w)
    then have w: "w \<in> set ws" "prefix w s"
      by (auto simp: find_Some_iff)
    then obtain r where r: "s = w @ r"
      by (auto simp: prefix_def)
    then have d: "drop (length w) s = r" by simp
    from 1(2,3) w(1) r have "c \<in> set r" by auto
    with 1(1) [OF Some] d 1(3) have "c \<in> set (strip ws r)" by simp
    with Some d show ?thesis by (subst strip.simps) simp
  qed
qed

lemma strip_unchanged:
  assumes "\<forall>w \<in> set ws. \<not> (w \<noteq> [] \<and> prefix w s)"
  shows "strip ws s = s"
proof -
  from assms have "find (\<lambda>w. w \<noteq> [] \<and> prefix w s) ws = None"
    by (simp add: find_None_iff)
  then show ?thesis by (subst strip.simps) simp
qed

lemma trim_nonblank:
  assumes "c \<in> set l" and "\<forall>w \<in> set whiteSpace. c \<notin> set w"
  shows "trim l \<noteq> []"
proof -
  have "c \<in> set (trimStart l)"
    unfolding trimStart_def using assms by (rule strip_keeps)
  then have "c \<in> set (rev (trimStart l))"
    by simp
  moreover have "\<forall>w \<in> set (map rev whiteSpace). c \<notin> set w"
    using assms(2) by simp
  ultimately have "c \<in> set (strip (map rev whiteSpace) (rev (trimStart l)))"
    by (rule strip_keeps)
  then have "c \<in> set (trim l)"
    by (simp add: trim_def trimEnd_def)
  then show ?thesis by auto
qed

lemma trim_Nil: "trim [] = []"
  by (simp add: trim_def trimStart_def trimEnd_def strip_Nil)

lemma comma_no_white_space: "\<forall>w \<in> set whiteSpace. CHR '','' \<notin> set w"
  by (simp add: whiteSpace_def)

lemma digit_in_digits: "d < 10 \<Longrightarrow> digit_in 10 (digits ! d) = Some d"
proof -
  assume "d < 10"
  then have "d \<in> {0, 1, 2, 3, 4, 5, 6, 7, 8, 9}" by auto
  then show ?thesis
    by (auto simp: digits_def digit_in_def digit_values_def upt_rec)
qed

lemma digits_nth_in: "d < 10 \<Longrightarrow> digits ! d \<in> set digits"
proof -
  assume "d < 10"
  moreover have "length digits = 10" by (simp add: digits_def)
  ultimately show ?thesis by (intro nth_mem) simp
qed

lemma set_show_nat: "set (show_nat n) \<subseteq> set digits"
proof (induction n rule: show_nat.induct)
  case (1 n)
  show ?case
  proof (cases "n < 10")
    case True
    then show ?thesis by (subst show_nat.simps) (simp add: digits_nth_in)
  next
    case False
    with 1 show ?thesis by (subst show_nat.simps) (simp add: digits_nth_in)
  qed
qed

lemma show_nat_nonempty: "show_nat n \<noteq> []"
  by (subst show_nat.simps) simp

lemma leading_digits_append:
  "leading_digits radix (s @ [c]) =
     (if length (leading_digits radix s) = length s
      then leading_digits radix s @ (case digit_in radix c of Some v \<Rightarrow> [v] | None \<Rightarrow> [])
      else leading_digits radix s)"
  by (induction s) (auto split: option.splits)

lemma leading_digits_show_nat:
  "length (leading_digits 10 (show_nat n)) = length (show_nat n)
   \<and> digits_value 10 (leading_digits 10 (show_nat n)) = n"
proof (induction n rule: show_nat.induct)
  case (1 n)
  show ?case
  proof (cases "n < 10")
    case True
    then have "show_nat n = [digits ! n]"
      by (subst show_nat.simps) simp
    with True show ?thesis
      by (simp add: digit_in_digits digits_value_def)
  next
    case False
    then have ih: "length (leading_digits 10 (show_nat (n div 10))) = length (show_nat (n div 10))"
      "digits_value 10 (leading_digits 10 (show_nat (n div 10))) = n div 10"
      using 1 by simp_all
    have s: "show_nat n = show_nat (n div 10) @ [digits ! (n mod 10)]"
      using False by (subst show_nat.simps) simp
    have d: "digit_in 10 (digits ! (n mod 10)) = Some (n mod 10)"
      by (rule digit_in_digits) simp
    have l: "leading_digits 10 (show_nat n) = leading_digits 10 (show_nat (n div 10)) @ [n mod 10]"
      unfolding s by (simp add: leading_digits_append ih(1) d)
    have "digits_value 10 (leading_digits 10 (show_nat n)) = (n div 10) * 10 + n mod 10"
      unfolding l using ih(2) by (simp add: digits_value_def)
    then show ?thesis
      using l ih(1) s by simp
  qed
qed

lemma trimStart_digit:
  assumes "c \<in> set digits"
  shows "trimStart (c # cs) = c # cs"
  unfolding trimStart_def
proof (rule strip_unchanged)
  have "\<forall>w \<in> set whiteSpace. hd w \<notin> set digits"
    by (simp add: whiteSpace_def digits_def)
  with assms have "\<forall>w \<in> set whiteSpace. hd w \<noteq> c"
    by blast
  moreover have "hd w = c" if "w \<noteq> []" "prefix w (c # cs)" for w
    using that by (cases w) simp_all
  ultimately show "\<forall>w \<in> set whiteSpace. \<not> (w \<noteq> [] \<and> prefix w (c # cs))"
    by blast
qed

lemma parseInt_show_nat: "parseInt (show_nat n) = to_number (int n)"
proof -
  obtain c cs where s: "show_nat n = c # cs"
    using show_nat_nonempty [of n] by (cases "show_nat n") auto
  have c: "c \<in> set digits" and cs: "set cs \<subseteq> set digits"
    using set_show_nat [of n] s by auto
  from c have "c \<noteq> CHR ''+''" "c \<noteq> CHR ''-''"
    by (auto simp: digits_def)
  then have sg: "hd (show_nat n) \<noteq> CHR ''+''" "hd (show_nat n) \<noteq> CHR ''-''"
    by (simp_all add: s)
  have w: "trimStart (show_nat n) = show_nat n"
    unfolding s using c by (rule trimStart_digit)
  have x: "\<not> prefix ''0x'' (show_nat n)" "\<not> prefix ''0X'' (show_nat n)"
    unfolding s using cs by (auto simp: digits_def prefix_def)
  have ld: "leading_digits 10 (show_nat n) \<noteq> []"
    using leading_digits_show_nat [of n] show_nat_nonempty [of n] by auto
  have v: "digits_value 10 (leading_digits 10 (show_nat n)) = n"
    using leading_digits_show_nat [of n] by simp
  show ?thesis
    unfolding parseInt_def Let_def w by (simp add: sg x ld v)
qed

lemma or_zero_to_number: "or_zero (to_number x) = to_number x"
  using to_number_sign(4) [of x] by (cases "to_number x") (simp_all add: or_zero_def)

lemma parseLine_serialize_row:
  assumes "fst row \<noteq> []" and "CHR '','' \<notin> set (fst row)"
  shows "parseLine (serialize_row row) = Some (fst row, to_number (int (snd row)))"
proof -
  have "CHR '','' \<notin> set (show_nat (snd row))"
    using set_show_nat [of "snd row"] by (auto simp: digits_def)
  then have "split_on (CHR '','') (serialize_row row) = [fst row, show_nat (snd row)]"
    using assms(2) by (simp add: serialize_row_def split_on_field split_on_single)
  then show ?thesis
    using assms(1)
    by (simp add: parseLine_def show_nat_nonempty parseInt_show_nat or_zero_to_number)
qed

lemma serialize_row_line:
  assumes "LF \<notin> set (fst row)"
  shows "LF \<notin> set (serialize_row row)" and "trim (serialize_row row) \<noteq> []"
proof -
  have "LF \<notin> set (show_nat (snd row))"
    using set_show_nat [of "snd row"] by (auto simp: digits_def LF_def)
  with assms show "LF \<notin> set (serialize_row row)"
    by (simp add: serialize_row_def LF_def)
  have "CHR '','' \<in> set (serialize_row row)"
    by (simp add: serialize_row_def)
  then show "trim (serialize_row row) \<noteq> []"
    using comma_no_white_space by (rule trim_nonblank)
qed

lemma nonblank_lines_serialize_table:
  assumes "\<forall>row \<in> set rows. LF \<notin> set (fst row)"
  shows "nonblank_lines (serialize_table rows) = ''itemName,count'' # map serialize_row rows"
proof -
  have h1: "LF \<notin> set ''itemName,count''"
    by (simp add: LF_def)
  have "CHR '','' \<in> set ''itemName,count''"
    by simp
  then have h2: "trim ''itemName,count'' \<noteq> []"
    using comma_no_white_space by (rule trim_nonblank)
  have "\<forall>l \<in> set (''itemName,count'' # map serialize_row rows). LF \<notin> set l"
    using assms h1 serialize_row_line(1) by auto
  then have "split_on LF (serialize_table rows) = (''itemName,count'' # map serialize_row rows) @ [[]]"
    unfolding serialize_table_def by (rule split_on_lines)
  moreover have "filter (\<lambda>line. trim line \<noteq> []) (map serialize_row rows) = map serialize_row rows"
    using assms serialize_row_line(2) by (simp add: filter_id_conv)
  ultimately show ?thesis
    using h2 by (simp add: nonblank_lines_def trim_Nil)
qed

lemma count_rows_parsed:
  "count_rows ls (totalBirds, fileCount) =
     (foldl plus_number totalBirds (map snd (List.map_filter parseLine ls)),
      fileCount + length (List.map_filter parseLine ls))"
  by (induction ls arbitrary: totalBirds fileCount)
     (auto simp: List.map_filter_simps split: option.splits)

lemma foldl_plus_exact:
  "t + sum_list cs < 2 ^ 53 \<Longrightarrow>
   foldl plus_number (Num (int t)) (map (\<lambda>c. Num (int c)) cs) = Num (int (t + sum_list cs))"
proof (induction cs arbitrary: t)
  case Nil
  then show ?case by simp
next
  case (Cons c cs)
  from Cons.prems have "t + c < 2 ^ 53" by simp
  then have "to_number (int (t + c)) = Num (int (t + c))"
    by (rule to_number_nat)
  then have "plus_number (Num (int t)) (Num (int c)) = Num (int (t + c))"
    by simp
  moreover have "(t + c) + sum_list cs < 2 ^ 53"
    using Cons.prems by (simp add: add.assoc)
  ultimately show ?case
    using Cons.IH [of "t + c"] by (simp add: add.assoc)
qed

lemma map_filter_parseLine_rows:
  assumes "\<forall>row \<in> set rows. fst row \<noteq> [] \<and> CHR '','' \<notin> set (fst row) \<and> snd row < 2 ^ 53"
  shows "List.map_filter parseLine (map serialize_row rows)
           = map (\<lambda>row. (fst row, Num (int (snd row)))) rows"
  using assms
proof (induction rows)
  case Nil
  then show ?case by (simp add: List.map_filter_simps)
next
  case (Cons row rows)
  then have "snd row < 2 ^ 53" by simp
  then have "to_number (int (snd row)) = Num (int (snd row))"
    by (rule to_number_nat)
  with Cons show ?case
    by (simp add: List.map_filter_simps parseLine_serialize_row)
qed

lemma serialize_table_read_back:
  assumes "\<forall>row \<in> set rows. fst row \<noteq> [] \<and> CHR '','' \<notin> set (fst row) \<and> LF \<notin> set (fst row)
             \<and> snd row < 2 ^ 53"
  shows "parsed_rows (serialize_table rows) = map (\<lambda>row. (fst row, Num (int (snd row)))) rows"
    and "snd (count_rows (drop 1 (nonblank_lines (serialize_table rows))) (Num 0, 0))
           = length rows"
    and "sum_list (map snd rows) < 2 ^ 53 \<Longrightarrow>
         fst (count_rows (drop 1 (nonblank_lines (serialize_table rows))) (Num 0, 0))
           = Num (int (sum_list (map snd rows)))"
proof -
  have l: "drop 1 (nonblank_lines (serialize_table rows)) = map serialize_row rows"
    using assms by (simp add: nonblank_lines_serialize_table)
  have p: "List.map_filter parseLine (map serialize_row rows)
             = map (\<lambda>row. (fst row, Num (int (snd row)))) rows"
    using assms by (simp add: map_filter_parseLine_rows)
  show "parsed_rows (serialize_table rows) = map (\<lambda>row. (fst row, Num (int (snd row)))) rows"
    unfolding parsed_rows_def l by (rule p)
  show "snd (count_rows (drop 1 (nonblank_lines (serialize_table rows))) (Num 0, 0))
          = length rows"
    unfolding l count_rows_parsed p by simp
  show "fst (count_rows (drop 1 (nonblank_lines (serialize_table rows))) (Num 0, 0))
          = Num (int (sum_list (map snd rows)))"
    if "sum_list (map snd rows) < 2 ^ 53"
  proof -
    from that have "0 + sum_list (map snd rows) < 2 ^ 53" by simp
    from foldl_plus_exact [OF this]
    have "foldl plus_number (Num 0) (map (\<lambda>c. Num (int c)) (map snd rows))
            = Num (int (sum_list (map snd rows)))"
      by simp
    then show ?thesis
      unfolding l count_rows_parsed p by (simp add: comp_def)
  qed
qed

text \<open>
  C6 (as amended). For a table whose item names are non-empty and contain neither a
  comma nor a line feed and whose counts are below \<open>2^53\<close>, writing it in the text
  format and reading the text back gives the same rows, name by name and count by
  count, in the same order: these are the pairs the loop of \<open>checkForResults\<close> reads,
  line by line. What the loop keeps of them is their number, which is the number of
  rows of the table, and the sum of the counts, which is the sum of the table's counts
  when that is below \<open>2^53\<close>.
\<close>

theorem table_text_round_trip:
  assumes "\<forall>row \<in> set rows. fst row \<noteq> [] \<and> CHR '','' \<notin> set (fst row) \<and> LF \<notin> set (fst row)
             \<and> snd row < 2 ^ 53"
  shows "parsed_rows (serialize_table rows) = map (\<lambda>row. (fst row, Num (int (snd row)))) rows
     \<and> snd (count_rows (drop 1 (nonblank_lines (serialize_table rows))) (Num 0, 0)) = length rows
     \<and> (sum_list (map snd rows) < 2 ^ 53 \<longrightarrow>
          fst (count_rows (drop 1 (nonblank_lines (serialize_table rows))) (Num 0, 0))
            = Num (int (sum_list (map snd rows))))"
  using serialize_table_read_back [OF assms] by blast

theorem table_text_round_trip_witness:
  "parsed_rows (serialize_table [(''a.jpg'', 2), (''b.png'', 5)])
     = [(''a.jpg'', Num 2), (''b.png'', Num 5)]
   \<and> count_rows (drop 1 (nonblank_lines (serialize_table [(''a.jpg'', 2), (''b.png'', 5)])))
       (Num 0, 0) = (Num 7, 2)
   \<and> serialize_table [(''a.jpg'', 2), (''b.png'', 5)]
       = ''itemName,count'' @ [LF] @ ''a.jpg,2'' @ [LF] @ ''b.png,5'' @ [LF]"
proof -
  have "\<forall>row \<in> set [(''a.jpg'', 2::nat), (''b.png'', 5)].
          fst row \<noteq> [] \<and> CHR '','' \<notin> set (fst row) \<and> LF \<notin> set (fst row) \<and> snd row < 2 ^ 53"
    by (simp add: LF_def)
  from table_text_round_trip [OF this]
  have "parsed_rows (serialize_table [(''a.jpg'', 2), (''b.png'', 5)])
     = [(''a.jpg'', Num 2), (''b.png'', Num 5)]
   \<and> count_rows (drop 1 (nonblank_lines (serialize_table [(''a.jpg'', 2), (''b.png'', 5)])))
       (Num 0, 0) = (Num 7, 2)"
    by (simp add: prod_eq_iff)
  moreover have "serialize_table [(''a.jpg'', 2), (''b.png'', 5)]
       = ''itemName,count'' @ [LF] @ ''a.jpg,2'' @ [LF] @ ''b.png,5'' @ [LF]"
    by (simp add: serialize_table_def serialize_row_def show_nat.simps digits_def)
  ultimately show ?thesis by simp
qed

text \<open>
  The entry a check builds from such a table: its \<open>filename\<close> is the number of rows
  of the table followed by \<open>images processed\<close> and its \<open>birdCount\<close> the sum of the
  table's counts.
\<close>

lemma serialized_table_entry:
  assumes "\<forall>row \<in> set rows. fst row \<noteq> [] \<and> CHR '','' \<notin> set (fst row) \<and> LF \<notin> set (fst row)
             \<and> snd row < 2 ^ 53"
    and "rows \<noteq> []" and "sum_list (map snd rows) < 2 ^ 53"
    and "key f = Some k" and "k \<noteq> []"
    and "downloadData env k = Fulfilled (serialize_table rows)"
    and "getUrl env now k = Fulfilled url"
  shows "results (process_file env now f run) = results run @
           [\<lparr>filename = show_nat (length rows) @ '' images processed'',
             birdCount = Num (int (sum_list (map snd rows))),
             extractionFolder = k, csvKey = k, downloadUrl = url, timestamp = timestamp_of k\<rparr>]"
proof -
  have n: "nonblank_lines (serialize_table rows) = ''itemName,count'' # map serialize_row rows"
    using assms(1) by (simp add: nonblank_lines_serialize_table)
  from assms(2) have "2 \<le> length (nonblank_lines (serialize_table rows))"
    unfolding n by (cases rows) simp_all
  from process_file_reports(1) [OF assms(4,5,6) this assms(7), of run]
    serialize_table_read_back(2,3) [OF assms(1)] assms(3)
  show ?thesis by simp
qed

text \<open>
  The bound on the counts is needed: a number holds the integers up to \<open>2^53\<close> and
  above it only one in two, so a count of \<open>2^53 + 1\<close> is read back as \<open>2^53\<close>.
\<close>

lemma count_above_bound_not_read_back:
  "parseInt (show_nat 9007199254740993) = Num 9007199254740992"
proof -
  have "bit_length 9007199254740993 = 54"
    by (simp add: bit_length.simps)
  then have "to_number 9007199254740993 = Num 9007199254740992"
    by (simp add: to_number_def round_nat_def Let_def)
  then show ?thesis
    by (simp add: parseInt_show_nat)
qed

text \<open>
  Whatever the text, no row read back has a comma in its name: no way of writing the
  table lets this reader recover such a name.
\<close>

lemma split_on_nonempty: "split_on sep s \<noteq> []"
  by (induction s) (auto split: list.splits)

lemma split_on_fields_without_sep: "f \<in> set (split_on sep s) \<Longrightarrow> sep \<notin> set f"
proof (induction s arbitrary: f)
  case Nil
  then show ?case by simp
next
  case (Cons c s)
  show ?case
  proof (cases "c = sep")
    case True
    with Cons show ?thesis by auto
  next
    case False
    obtain x xs where x: "split_on sep s = x # xs"
      using split_on_nonempty [of sep s] by (cases "split_on sep s") auto
    with False Cons.prems have "f = c # x \<or> f \<in> set xs" by simp
    then show ?thesis
    proof
      assume "f = c # x"
      moreover have "sep \<notin> set x" using Cons.IH [of x] x by simp
      ultimately show ?thesis using False by auto
    next
      assume "f \<in> set xs"
      then show ?thesis using Cons.IH [of f] x by simp
    qed
  qed
qed

lemma parseLine_name_without_comma:
  "parseLine line = Some (n, c) \<Longrightarrow> CHR '','' \<notin> set n"
  using split_on_fields_without_sep [of n "CHR '',''" line]
  by (auto simp: parseLine_def split: list.splits if_splits)

lemma parsed_rows_names_without_comma:
  "(n, c) \<in> set (parsed_rows csvText) \<Longrightarrow> CHR '','' \<notin> set n"
  by (auto simp: parsed_rows_def List.map_filter_def dest: parseLine_name_without_comma)

text \<open>
  C6 (as stated) fails: \<open>line.split(',')\<close> ends the name at its first comma, so the
  row \<open>a,b.jpg\<close> with count 3 is read back as \<open>a\<close> with count 0.
\<close>

theorem comma_in_name_breaks_round_trip:
  "parsed_rows (serialize_table [(''a,b.jpg'', 3)]) = [(''a'', Num 0)]
   \<and> parsed_rows (serialize_table [(''a,b.jpg'', 3)]) \<noteq> [(''a,b.jpg'', Num 3)]
   \<and> count_rows (drop 1 (nonblank_lines (serialize_table [(''a,b.jpg'', 3)]))) (Num 0, 0)
       = (Num 0, 1)"
proof -
  have t: "serialize_table [(''a,b.jpg'', 3)] = ''itemName,count'' @ [LF] @ ''a,b.jpg,3'' @ [LF]"
    by (simp add: serialize_table_def serialize_row_def show_nat.simps digits_def)
  have l: "drop 1 (nonblank_lines (serialize_table [(''a,b.jpg'', 3)])) = [''a,b.jpg,3'']"
    unfolding t
    by (simp add: nonblank_lines_def LF_def trim_def trimStart_def trimEnd_def strip_Nil
        strip_Cons whiteSpace_def)
  have "digit_in 10 (CHR ''b'') = None"
    by (simp add: digit_in_def digit_values_def upt_rec)
  then have "parseInt ''b.jpg'' = NaN"
    by (simp add: parseInt_def trimStart_def strip_Cons whiteSpace_def Let_def)
  then have p: "parseLine ''a,b.jpg,3'' = Some (''a'', Num 0)"
    by (simp add: parseLine_def or_zero_def)
  show ?thesis
    unfolding parsed_rows_def l by (simp add: List.map_filter_simps p to_number_small)
qed

end
